theory Spec2Isabelle
  imports Complex_Main "HOL-Library.Log_Nat" "HOL-Library.Product_Lexorder" "HOL-Library.Multiset"
begin

section \<open>JavaScript and BSON numbers\<close>

text \<open>
  The feed routes compute with IEEE-754 binary64 numbers. A double is modelled by the
  rational it denotes, and every arithmetic operation that can be inexact rounds its exact
  result to the nearest double, ties to even. Overflow, subnormal numbers, infinities and
  NaN are outside the model. Operations on integers (counts, page numbers, millisecond
  timestamps) are exact on safe integers and are kept in \<^typ>\<open>int\<close>.
\<close>

definition ilog2 :: "rat \<Rightarrow> int" where
  "ilog2 x = (case quotient_of x of (p, q) \<Rightarrow>
     (let d = bitlen p - bitlen q in if x < 2 powi d then d - 1 else d))"

definition round_half_even :: "rat \<Rightarrow> int" where
  "round_half_even y = (let f = \<lfloor>y\<rfloor>; r = y - of_int f in
     if r < 1 / 2 then f else if 1 / 2 < r then f + 1 else if even f then f else f + 1)"

definition round_double :: "rat \<Rightarrow> rat" where
  "round_double x = (if x = 0 then 0 else
     (let u = 2 powi (ilog2 \<bar>x\<bar> - 52)
      in sgn x * of_int (round_half_even (\<bar>x\<bar> / u)) * u))"

definition dmul :: "rat \<Rightarrow> rat \<Rightarrow> rat" where
  "dmul x y = round_double (x * y)"

definition dadd :: "rat \<Rightarrow> rat \<Rightarrow> rat" where
  "dadd x y = round_double (x + y)"

definition ddiv :: "rat \<Rightarrow> rat \<Rightarrow> rat" where
  "ddiv x y = round_double (x / y)"

text \<open>The decimal literals of the routes denote the nearest doubles.\<close>

definition d0_7 :: rat where "d0_7 = round_double (7 / 10)"
definition d0_3 :: rat where "d0_3 = round_double (3 / 10)"
definition d0_8 :: rat where "d0_8 = round_double (8 / 10)"
definition d0_2 :: rat where "d0_2 = round_double (2 / 10)"
definition d0_4 :: rat where "d0_4 = round_double (4 / 10)"

text \<open>
  \<^verbatim>\<open>parseInt(q) || d\<close>: the argument is the result of \<^verbatim>\<open>parseInt\<close>, \<open>None\<close> for NaN
  (parameter absent or not numeric). NaN and 0 are falsy, so both yield the default.
\<close>

definition js_or :: "int option \<Rightarrow> int \<Rightarrow> int" where
  "js_or v d = (case v of None \<Rightarrow> d | Some n \<Rightarrow> if n = 0 then d else n)"

text \<open>\<^verbatim>\<open>Array.prototype.slice(start, end)\<close>: a negative index counts from the end.\<close>

definition js_slice :: "'a list \<Rightarrow> int \<Rightarrow> int \<Rightarrow> 'a list" where
  "js_slice xs start fin =
     (let len = int (length xs);
          k = (if start < 0 then max (len + start) 0 else min start len);
          final = (if fin < 0 then max (len + fin) 0 else min fin len)
      in take (nat (final - k)) (drop (nat k) xs))"

text \<open>\<^verbatim>\<open>Math.ceil(total / limit)\<close>; the divisor is never 0 in the routes.\<close>

definition totalPagesOf :: "int \<Rightarrow> int \<Rightarrow> int" where
  "totalPagesOf n limit = \<lceil>ddiv (of_int n) (of_int limit)\<rceil>"

section \<open>Documents and collections\<close>

type_synonym oid = nat

record comment =
  comment_user :: oid
  comment_content :: string

record post =
  post_id :: oid
  author :: oid
  likes :: "oid list"
  comments :: "comment list"
  isPublic :: bool
  createdAt :: int

record user_doc =
  user_id :: oid
  following :: "oid list"
  followers :: "oid list"

text \<open>The two collections, in the order in which the store scans them.\<close>

record db =
  Posts :: "post list"
  Users :: "user_doc list"

text \<open>
  Every failure inside a route is caught and answered with status 500 and the message
  \<^verbatim>\<open>Server error\<close>.
\<close>

datatype error = ServerError

record 'a response =
  posts :: "'a list"
  currentPage :: int
  totalPages :: int
  totalPosts :: int
  feedType :: string

section \<open>Mongoose and MongoDB operations used by the routes\<close>

definition findById :: "db \<Rightarrow> oid \<Rightarrow> user_doc option" where
  "findById s i = find (\<lambda>u. user_id u = i) (Users s)"

text \<open>Populating an array of references drops the references that resolve to no document.\<close>

definition populate_refs :: "db \<Rightarrow> oid list \<Rightarrow> oid list" where
  "populate_refs s ids = filter (\<lambda>i. findById s i \<noteq> None) ids"

text \<open>
  \<^verbatim>\<open>populate\<close> of \<^verbatim>\<open>author\<close>, \<^verbatim>\<open>likes\<close> and \<^verbatim>\<open>comments.user\<close>: the liked-by array keeps
  the users that exist; the comment array keeps every comment. The populated user
  documents are represented by their identities.
\<close>

definition populate_post :: "db \<Rightarrow> post \<Rightarrow> post" where
  "populate_post s p = p\<lparr>likes := populate_refs s (likes p)\<rparr>"

text \<open>
  \<^verbatim>\<open>cursor.limit(n)\<close> of a \<^verbatim>\<open>find\<close>: 0 sets no limit, a negative number limits to its
  absolute value.
\<close>

definition find_limit :: "int \<Rightarrow> 'a list \<Rightarrow> 'a list" where
  "find_limit n xs = (if n = 0 then xs else take (nat \<bar>n\<bar>) xs)"

text \<open>
  Sorting descending on a key is a stable sort on the negated key: documents with equal
  keys stay in collection order.
\<close>

definition sort_desc :: "('a \<Rightarrow> 'k::{linorder, uminus}) \<Rightarrow> 'a list \<Rightarrow> 'a list" where
  "sort_desc f xs = sort_key (\<lambda>x. - f x) xs"

text \<open>\<^verbatim>\<open>$sort: { f: -1, g: -1 }\<close>: descending on \<open>f\<close>, ties descending on \<open>g\<close>.\<close>

definition sort_desc2 ::
  "('a \<Rightarrow> 'k::{linorder, uminus}) \<Rightarrow> ('a \<Rightarrow> 'l::{linorder, uminus}) \<Rightarrow> 'a list \<Rightarrow> 'a list" where
  "sort_desc2 f g xs = sort_key (\<lambda>x. (- f x, - g x)) xs"

section \<open>GET /api/feed: the personalized feed\<close>

text \<open>
  The items of the personalized feed come in three shapes: the Mongoose documents of the
  followed-author query, the results of the co-engagement aggregation, which carry the
  added field \<^verbatim>\<open>likedByFollowing\<close>, and the results of the popularity aggregation, which
  carry \<^verbatim>\<open>engagementScore\<close>. (The \<^verbatim>\<open>likedByUsers\<close> array added by \<^verbatim>\<open>$lookup\<close> is determined by
  \<^verbatim>\<open>likes\<close> and the user collection and is not represented.)
\<close>

datatype feed_item =
    Following post
  | LikedByFollowing post nat
  | Popular post int

fun item_doc :: "feed_item \<Rightarrow> post" where
  "item_doc (Following p) = p"
| "item_doc (LikedByFollowing p n) = p"
| "item_doc (Popular p e) = p"

text \<open>The \<^verbatim>\<open>likedByFollowing\<close> field of a co-engagement result.\<close>

fun co_engagement_score :: "feed_item \<Rightarrow> nat" where
  "co_engagement_score (LikedByFollowing p n) = n"
| "co_engagement_score _ = 0"

fun is_following_item :: "feed_item \<Rightarrow> bool" where
  "is_following_item (Following p) = True"
| "is_following_item _ = False"

definition followingPostsCount :: "int \<Rightarrow> int" where
  "followingPostsCount limit = \<lfloor>dmul (of_int limit) d0_7\<rfloor>"

definition followingPosts :: "db \<Rightarrow> oid list \<Rightarrow> int \<Rightarrow> post list" where
  "followingPosts s followingIds limit =
     map (populate_post s)
       (find_limit (followingPostsCount limit)
         (sort_desc createdAt
           (filter (\<lambda>p. author p \<in> set followingIds \<and> isPublic p) (Posts s))))"

text \<open>
  \<^verbatim>\<open>$lookup\<close> of the liking users followed by the size of
  \<^verbatim>\<open>$setIntersection: ['$likedByUsers._id', followingIds]\<close>.
\<close>

definition likedByFollowing :: "db \<Rightarrow> oid list \<Rightarrow> post \<Rightarrow> nat" where
  "likedByFollowing s followingIds p =
     length (remdups (filter (\<lambda>i. i \<in> set followingIds)
       (map user_id (filter (\<lambda>u. user_id u \<in> set (likes p)) (Users s)))))"

definition engagementScore :: "post \<Rightarrow> int" where
  "engagementScore p = int (length (likes p)) + int (length (comments p)) * 2"

definition postsLikedByFollowing ::
  "db \<Rightarrow> oid \<Rightarrow> oid list \<Rightarrow> oid list \<Rightarrow> int \<Rightarrow> feed_item list" where
  "postsLikedByFollowing s viewer followingIds excluded recommendedPostsCount =
     map (\<lambda>(p, n). LikedByFollowing (populate_post s p) n)
       (take (nat recommendedPostsCount)
         (sort_desc2 (\<lambda>(p, n). int n) (\<lambda>(p, n). createdAt p)
           (filter (\<lambda>(p, n). 0 < n)
             (map (\<lambda>p. (p, likedByFollowing s followingIds p))
               (filter (\<lambda>p. post_id p \<notin> set excluded
                            \<and> author p \<notin> set (viewer # followingIds) \<and> isPublic p)
                 (Posts s))))))"

definition popularPosts ::
  "db \<Rightarrow> oid \<Rightarrow> oid list \<Rightarrow> oid list \<Rightarrow> int \<Rightarrow> feed_item list" where
  "popularPosts s viewer followingIds excluded remainingCount =
     map (\<lambda>(p, e). Popular (populate_post s p) e)
       (take (nat remainingCount)
         (sort_desc2 (\<lambda>(p, e). e) (\<lambda>(p, e). createdAt p)
           (map (\<lambda>p. (p, engagementScore p))
             (filter (\<lambda>p. post_id p \<notin> set excluded
                          \<and> author p \<notin> set (viewer # followingIds) \<and> isPublic p)
               (Posts s)))))"

definition recommendedPosts ::
  "db \<Rightarrow> oid \<Rightarrow> oid list \<Rightarrow> post list \<Rightarrow> int \<Rightarrow> feed_item list" where
  "recommendedPosts s viewer followingIds fps recommendedPostsCount =
     (if 0 < recommendedPostsCount then
        (let liked = postsLikedByFollowing s viewer followingIds (map post_id fps)
                       recommendedPostsCount
         in if int (length liked) < recommendedPostsCount then
              liked @ popularPosts s viewer followingIds
                        (map post_id fps @ map (post_id \<circ> item_doc) liked)
                        (recommendedPostsCount - int (length liked))
            else liked)
      else [])"

text \<open>The recency term of the comparator: \<^verbatim>\<open>new Date(a.createdAt).getTime() / 1000000\<close>.\<close>

definition recencyFactor :: "int \<Rightarrow> rat" where
  "recencyFactor t = ddiv (of_int t) 1000000"

definition unifiedScore :: "feed_item \<Rightarrow> rat" where
  "unifiedScore a =
     dadd (dmul (of_int (engagementScore (item_doc a))) d0_3)
          (dmul (recencyFactor (createdAt (item_doc a))) d0_7)"

definition candidates :: "db \<Rightarrow> oid \<Rightarrow> oid list \<Rightarrow> int \<Rightarrow> feed_item list" where
  "candidates s viewer followingIds limit =
     (let fps = followingPosts s followingIds limit
      in map Following fps
         @ recommendedPosts s viewer followingIds fps (limit - int (length fps)))"

definition allPosts :: "db \<Rightarrow> oid \<Rightarrow> oid list \<Rightarrow> int \<Rightarrow> feed_item list" where
  "allPosts s viewer followingIds limit =
     sort_desc unifiedScore (candidates s viewer followingIds limit)"

definition getPersonalizedFeed ::
  "db \<Rightarrow> oid \<Rightarrow> int option \<Rightarrow> int option \<Rightarrow> error + feed_item response" where
  "getPersonalizedFeed s viewer pageQ limitQ =
     (let page = js_or pageQ 1; limit = js_or limitQ 10; skip = (page - 1) * limit
      in case findById s viewer of
           None \<Rightarrow> Inl ServerError
         | Some user \<Rightarrow>
             (let all = allPosts s viewer (populate_refs s (following user)) limit;
                  n = int (length all)
              in Inr \<lparr>posts = js_slice all skip (skip + limit),
                      currentPage = page,
                      totalPages = totalPagesOf n limit,
                      totalPosts = n,
                      feedType = ''personalized''\<rparr>))"

text \<open>\<^verbatim>\<open>setHasMore(page < totalPages)\<close> of the Home page, for the page it requested.\<close>

definition hasMore :: "int \<Rightarrow> 'a response \<Rightarrow> bool" where
  "hasMore page r = (page < totalPages r)"

section \<open>GET /api/feed/trending\<close>

record trending_doc =
  trending_post :: post
  trending_engagementScore :: int
  recencyBoost :: rat
  finalScore :: rat

text \<open>The two \<^verbatim>\<open>$addFields\<close> stages; \<open>now\<close> is the value of \<^verbatim>\<open>new Date()\<close> in milliseconds.\<close>

definition trending_fields :: "int \<Rightarrow> post \<Rightarrow> trending_doc" where
  "trending_fields now p =
     (let e = engagementScore p;
          r = ddiv (of_int (now - createdAt p)) 86400000
      in \<lparr>trending_post = p, trending_engagementScore = e, recencyBoost = r,
            finalScore = dadd (dmul (of_int e) d0_8) (dmul r d0_2)\<rparr>)"

definition trending_ranked :: "db \<Rightarrow> int \<Rightarrow> trending_doc list" where
  "trending_ranked s now =
     sort_desc finalScore (map (trending_fields now) (filter isPublic (Posts s)))"

text \<open>
  The server validates \<^verbatim>\<open>$skip\<close> and \<^verbatim>\<open>$limit\<close> when it parses a pipeline: \<^verbatim>\<open>$skip\<close> takes
  a non-negative and \<^verbatim>\<open>$limit\<close> a positive number that fits a signed 64-bit integer. This
  is the behaviour the server documents; it is not code of the routes. A rejected
  aggregation throws, and the route answers 500.
\<close>

definition aggregate_accepts :: "int \<Rightarrow> int \<Rightarrow> bool" where
  "aggregate_accepts skip limit = (0 \<le> skip \<and> skip < 2 ^ 63 \<and> 0 < limit \<and> limit < 2 ^ 63)"

definition trendingPosts :: "db \<Rightarrow> int \<Rightarrow> int \<Rightarrow> int \<Rightarrow> error + trending_doc list" where
  "trendingPosts s now skip limit =
     (if aggregate_accepts skip limit
      then Inr (take (nat limit) (drop (nat skip) (trending_ranked s now)))
      else Inl ServerError)"

definition getTrendingFeed ::
  "db \<Rightarrow> int \<Rightarrow> int option \<Rightarrow> int option \<Rightarrow> error + trending_doc response" where
  "getTrendingFeed s now pageQ limitQ =
     (let page = js_or pageQ 1; limit = js_or limitQ 10; skip = (page - 1) * limit
      in case trendingPosts s now skip limit of
           Inl e \<Rightarrow> Inl e
         | Inr ds \<Rightarrow>
             (let n = int (length (filter isPublic (Posts s)))
              in Inr \<lparr>posts = map (\<lambda>d. d\<lparr>trending_post := populate_post s (trending_post d)\<rparr>) ds,
                      currentPage = page,
                      totalPages = totalPagesOf n limit,
                      totalPosts = n,
                      feedType = ''trending''\<rparr>))"

section \<open>GET /api/feed/discover\<close>

record discover_doc =
  discover_post :: post
  authorData :: "user_doc list"
  authorFollowers :: "oid list"
  discoveryScore :: rat

text \<open>
  \<^verbatim>\<open>$lookup\<close> of the author and the two \<^verbatim>\<open>$addFields\<close> stages. \<^verbatim>\<open>$size\<close> of a missing
  field is an error of the aggregation, so a post whose author has no user document
  fails the whole request. The three terms of \<^verbatim>\<open>$add\<close> are summed from left to right.
\<close>

definition discover_fields :: "db \<Rightarrow> post \<Rightarrow> error + discover_doc" where
  "discover_fields s p =
     (let ad = filter (\<lambda>u. user_id u = author p) (Users s)
      in case ad of
           [] \<Rightarrow> Inl ServerError
         | u # _ \<Rightarrow>
             Inr \<lparr>discover_post = p, authorData = ad, authorFollowers = followers u,
                   discoveryScore =
                     dadd (dadd (dmul (of_nat (length (likes p))) d0_4)
                                (dmul (of_nat (length (comments p))) d0_3))
                          (dmul (of_nat (length (followers u))) d0_3)\<rparr>)"

fun collect :: "(error + 'a) list \<Rightarrow> error + 'a list" where
  "collect [] = Inr []"
| "collect (x # xs) =
     (case x of
        Inl e \<Rightarrow> Inl e
      | Inr v \<Rightarrow> (case collect xs of Inl e \<Rightarrow> Inl e | Inr vs \<Rightarrow> Inr (v # vs)))"

definition discover_match :: "oid \<Rightarrow> oid list \<Rightarrow> post \<Rightarrow> bool" where
  "discover_match viewer followingIds p =
     (author p \<notin> set (viewer # followingIds) \<and> isPublic p)"

definition discoverPosts ::
  "db \<Rightarrow> oid \<Rightarrow> oid list \<Rightarrow> int \<Rightarrow> int \<Rightarrow> error + discover_doc list" where
  "discoverPosts s viewer followingIds skip limit =
     (if aggregate_accepts skip limit
      then case collect (map (discover_fields s)
                  (filter (discover_match viewer followingIds) (Posts s))) of
             Inl e \<Rightarrow> Inl e
           | Inr ds \<Rightarrow>
               Inr (take (nat limit) (drop (nat skip)
                     (sort_desc2 discoveryScore (createdAt \<circ> discover_post) ds)))
      else Inl ServerError)"

definition getDiscoverFeed ::
  "db \<Rightarrow> oid \<Rightarrow> int option \<Rightarrow> int option \<Rightarrow> error + discover_doc response" where
  "getDiscoverFeed s viewer pageQ limitQ =
     (let page = js_or pageQ 1; limit = js_or limitQ 10; skip = (page - 1) * limit
      in case findById s viewer of
           None \<Rightarrow> Inl ServerError
         | Some user \<Rightarrow>
             (case discoverPosts s viewer (following user) skip limit of
                Inl e \<Rightarrow> Inl e
              | Inr ds \<Rightarrow>
                  (let n = int (length (filter (discover_match viewer (following user)) (Posts s)))
                   in Inr \<lparr>posts = map (\<lambda>d. d\<lparr>discover_post := populate_post s (discover_post d)\<rparr>) ds,
                           currentPage = page,
                           totalPages = totalPagesOf n limit,
                           totalPosts = n,
                           feedType = ''discover''\<rparr>)))"

section \<open>An example store\<close>

definition demo_post :: "oid \<Rightarrow> oid \<Rightarrow> oid list \<Rightarrow> nat \<Rightarrow> bool \<Rightarrow> int \<Rightarrow> post" where
  "demo_post i a ls c pub t =
     \<lparr>post_id = i, author = a, likes = ls,
      comments = replicate c \<lparr>comment_user = a, comment_content = ''ok''\<rparr>,
      isPublic = pub, createdAt = t\<rparr>"

definition demo_db :: db where
  "demo_db =
     \<lparr>Posts = [demo_post 10 2 [] 0 True 1000, demo_post 11 2 [5] 0 True 2000,
               demo_post 12 3 [2] 1 True 1500, demo_post 13 3 [] 0 False 100,
               demo_post 14 4 [] 3 True 50],
      Users = [\<lparr>user_id = 5, following = [2], followers = []\<rparr>,
               \<lparr>user_id = 2, following = [], followers = [5]\<rparr>,
               \<lparr>user_id = 3, following = [], followers = []\<rparr>,
               \<lparr>user_id = 4, following = [], followers = []\<rparr>]\<rparr>"

definition demo_page :: "feed_item response" where
  "demo_page =
     \<lparr>posts = js_slice (allPosts demo_db 5 [2] 10) 0 10,
      currentPage = 1,
      totalPages = totalPagesOf 4 10,
      totalPosts = 4,
      feedType = ''personalized''\<rparr>"

definition trend_a :: post where
  "trend_a = \<lparr>post_id = 31, author = 2, likes = [41, 42, 43, 44, 45, 46, 47, 48, 49, 50],
               comments = [], isPublic = True, createdAt = 1700000000000\<rparr>"

definition trend_b :: post where
  "trend_b = \<lparr>post_id = 32, author = 3, likes = [41, 42],
               comments = replicate 5 \<lparr>comment_user = 41, comment_content = ''ok''\<rparr>,
               isPublic = True, createdAt = 1700000000000\<rparr>"

definition trend_db :: db where
  "trend_db = \<lparr>Posts = [trend_a, trend_b], Users = []\<rparr>"







section \<open>Properties of the rounding model\<close>

lemma bitlen_powi_bounds:
  fixes p :: int
  assumes "0 < p"
  shows "(2::rat) powi (bitlen p - 1) \<le> of_int p" and "of_int p < (2::rat) powi (bitlen p)"
proof -
  have b: "1 \<le> bitlen p" using assms by (simp add: bitlen_alt_def)
  from bitlen_bounds[OF assms] have l: "2 ^ nat (bitlen p - 1) \<le> p" and u: "p < 2 ^ nat (bitlen p)"
    by auto
  have "(2::rat) powi (bitlen p - 1) = of_int (2 ^ nat (bitlen p - 1))"
    using b by (simp add: power_int_def)
  also have "\<dots> \<le> of_int p" using l by (simp only: of_int_le_iff)
  finally show "(2::rat) powi (bitlen p - 1) \<le> of_int p" .
  have "(of_int p :: rat) < of_int (2 ^ nat (bitlen p))" using u by (simp only: of_int_less_iff)
  also have "\<dots> = 2 powi (bitlen p)" using b by (simp add: power_int_def)
  finally show "of_int p < (2::rat) powi (bitlen p)" .
qed

lemma ilog2_bounds:
  assumes "0 < x"
  shows "2 powi (ilog2 x) \<le> x" and "x < 2 powi (ilog2 x + 1)"
proof -
  obtain p q where pq: "quotient_of x = (p, q)" by (cases "quotient_of x")
  have q: "0 < q" using pq quotient_of_denom_pos by blast
  have x: "x = of_int p / of_int q" using pq by (rule quotient_of_div)
  have p: "0 < p" using assms q x by (simp add: zero_less_divide_iff)
  define d where "d = bitlen p - bitlen q"
  have Q: "(0::rat) < of_int q" using q by simp
  have lo: "2 powi (d - 1) < x"
  proof -
    have "2 powi (d - 1) * of_int q < (2::rat) powi (d - 1) * 2 powi (bitlen q)"
      using bitlen_powi_bounds(2)[OF q] by (simp add: mult_strict_left_mono)
    also have "\<dots> = 2 powi (bitlen p - 1)"
      by (simp add: d_def power_int_add[symmetric])
    also have "\<dots> \<le> of_int p" using bitlen_powi_bounds(1)[OF p] .
    finally show ?thesis using Q by (simp add: x pos_less_divide_eq)
  qed
  have hi: "x < 2 powi (d + 1)"
  proof -
    have "of_int p < (2::rat) powi (bitlen p)" using bitlen_powi_bounds(2)[OF p] .
    also have "\<dots> = 2 powi (d + 1) * 2 powi (bitlen q - 1)"
      by (simp add: d_def power_int_add[symmetric])
    also have "\<dots> \<le> 2 powi (d + 1) * of_int q"
      using bitlen_powi_bounds(1)[OF q] by (simp add: mult_left_mono)
    finally show ?thesis using Q by (simp add: x pos_divide_less_eq)
  qed
  have e: "ilog2 x = (if x < 2 powi d then d - 1 else d)"
    by (simp add: ilog2_def pq d_def Let_def)
  show "2 powi (ilog2 x) \<le> x" using lo by (auto simp: e)
  show "x < 2 powi (ilog2 x + 1)" using hi by (auto simp: e)
qed

lemma pow2_less_iff: "(2::rat) powi a < 2 powi b \<longleftrightarrow> a < b"
proof
  assume l: "(2::rat) powi a < 2 powi b"
  show "a < b"
  proof (rule ccontr)
    assume "\<not> a < b"
    then have "(2::rat) powi b \<le> 2 powi a" by (intro power_int_increasing) auto
    with l show False by simp
  qed
next
  assume "a < b"
  then show "(2::rat) powi a < 2 powi b" by (intro power_int_strict_increasing) auto
qed

lemma pow2_le_iff: "(2::rat) powi a \<le> 2 powi b \<longleftrightarrow> a \<le> b"
  using pow2_less_iff[of b a] by (auto simp: not_less[symmetric])

lemma pow2_pos [simp]: "(0::rat) < 2 powi a"
  by (simp add: zero_less_power_int)

lemma ilog2_unique:
  assumes "2 powi e \<le> x" and "x < 2 powi (e + 1)"
  shows "ilog2 x = e"
proof -
  have x: "0 < x" using assms(1) pow2_pos[of e] by linarith
  note b = ilog2_bounds[OF x]
  have "(2::rat) powi e < 2 powi (ilog2 x + 1)" using assms(1) b(2) by simp
  then have 1: "e < ilog2 x + 1" by (simp only: pow2_less_iff)
  have "(2::rat) powi (ilog2 x) < 2 powi (e + 1)" using assms(2) b(1) by simp
  then have 2: "ilog2 x < e + 1" by (simp only: pow2_less_iff)
  from 1 2 show ?thesis by simp
qed


lemma round_half_even_of_int [simp]: "round_half_even (of_int n) = n"
  by (simp add: round_half_even_def)

lemma round_half_even_floor:
  "\<lfloor>y\<rfloor> \<le> round_half_even y" "round_half_even y \<le> \<lfloor>y\<rfloor> + 1"
  by (simp_all add: round_half_even_def Let_def)

lemma round_half_even_mono:
  assumes "x \<le> y"
  shows "round_half_even x \<le> round_half_even y"
proof (cases "\<lfloor>x\<rfloor> = \<lfloor>y\<rfloor>")
  case True
  have "x - of_int \<lfloor>y\<rfloor> \<le> y - of_int \<lfloor>y\<rfloor>" using assms by simp
  then show ?thesis unfolding round_half_even_def Let_def True by auto
next
  case False
  then have "\<lfloor>x\<rfloor> < \<lfloor>y\<rfloor>" using assms floor_mono[of x y] by linarith
  then have "round_half_even x \<le> \<lfloor>y\<rfloor>" using round_half_even_floor(2)[of x] by linarith
  then show ?thesis using round_half_even_floor(1)[of y] by linarith
qed

lemma round_half_even_near:
  "of_int (round_half_even y) \<le> y + 1 / 2" "y - 1 / 2 \<le> of_int (round_half_even y)"
proof -
  define f where "f = \<lfloor>y\<rfloor>"
  have b: "of_int f \<le> y" "y < of_int f + 1" unfolding f_def by linarith+
  have "(round_half_even y = f \<and> y - of_int f \<le> 1 / 2)
      \<or> (round_half_even y = f + 1 \<and> 1 / 2 \<le> y - of_int f)"
    unfolding round_half_even_def Let_def f_def[symmetric] by (simp add: not_less)
  then show "of_int (round_half_even y) \<le> y + 1 / 2" "y - 1 / 2 \<le> of_int (round_half_even y)"
    using b by (elim disjE conjE; simp; linarith)+
qed

lemma round_double_pos:
  assumes "0 < x"
  shows "round_double x = of_int (round_half_even (x / 2 powi (ilog2 x - 52))) * 2 powi (ilog2 x - 52)"
  using assms by (simp add: round_double_def Let_def)

lemma round_double_minus: "round_double (- x) = - round_double x"
  by (simp add: round_double_def Let_def sgn_minus)

lemma round_double_zero [simp]: "round_double 0 = 0"
  by (simp add: round_double_def)

lemma scaled_bounds:
  assumes "0 < x"
  shows "2 ^ 52 \<le> x / 2 powi (ilog2 x - 52)" and "x / 2 powi (ilog2 x - 52) < 2 ^ 53"
proof -
  have u: "(2::rat) powi (ilog2 x - 52) = 2 powi (ilog2 x) / 2 ^ 52"
    by (simp add: power_int_diff)
  have "2 ^ 52 * 2 powi (ilog2 x - 52) = (2::rat) powi (ilog2 x)" by (simp add: u)
  then show "2 ^ 52 \<le> x / 2 powi (ilog2 x - 52)"
    using ilog2_bounds(1)[OF assms] by (simp add: pos_le_divide_eq)
  have "2 ^ 53 * 2 powi (ilog2 x - 52) = (2::rat) powi (ilog2 x + 1)"
    by (simp add: u power_int_add)
  then show "x / 2 powi (ilog2 x - 52) < 2 ^ 53"
    using ilog2_bounds(2)[OF assms] by (simp add: pos_divide_less_eq)
qed

lemma round_double_range:
  assumes "0 < x"
  shows "2 powi (ilog2 x) \<le> round_double x" and "round_double x \<le> 2 powi (ilog2 x + 1)"
proof -
  let ?u = "(2::rat) powi (ilog2 x - 52)"
  let ?m = "round_half_even (x / ?u)"
  have "round_half_even (of_int (2 ^ 52)) \<le> ?m"
    using scaled_bounds(1)[OF assms] by (intro round_half_even_mono) simp
  then have lo: "(2 ^ 52 :: rat) \<le> of_int ?m"
    unfolding round_half_even_of_int by (metis of_int_le_iff of_int_numeral of_int_power)
  have "?m \<le> round_half_even (of_int (2 ^ 53))"
    using scaled_bounds(2)[OF assms] by (intro round_half_even_mono) simp
  then have hi: "of_int ?m \<le> (2 ^ 53 :: rat)"
    unfolding round_half_even_of_int by (metis of_int_le_iff of_int_numeral of_int_power)
  have u: "?u = 2 powi (ilog2 x) / 2 ^ 52" by (simp add: power_int_diff)
  have "2 powi (ilog2 x) = 2 ^ 52 * ?u" by (simp add: u)
  also have "\<dots> \<le> of_int ?m * ?u" using lo by (intro mult_right_mono) auto
  finally show "2 powi (ilog2 x) \<le> round_double x" by (simp add: round_double_pos[OF assms])
  have "of_int ?m * ?u \<le> 2 ^ 53 * ?u" using hi by (intro mult_right_mono) auto
  also have "\<dots> = 2 powi (ilog2 x + 1)" by (simp add: u power_int_add)
  finally show "round_double x \<le> 2 powi (ilog2 x + 1)" by (simp add: round_double_pos[OF assms])
qed

lemma round_double_pos_pos: "0 < x \<Longrightarrow> 0 < round_double x"
  using round_double_range(1)[of x] pow2_pos[of "ilog2 x"] by linarith

lemma round_double_mono_pos:
  assumes "0 < x" and "x \<le> y"
  shows "round_double x \<le> round_double y"
proof -
  have y: "0 < y" using assms by simp
  have "(2::rat) powi (ilog2 x) < 2 powi (ilog2 y + 1)"
    using ilog2_bounds(1)[OF assms(1)] ilog2_bounds(2)[OF y] assms(2) by linarith
  then have le: "ilog2 x \<le> ilog2 y" by (simp add: pow2_less_iff)
  show ?thesis
  proof (cases "ilog2 x = ilog2 y")
    case True
    let ?u = "(2::rat) powi (ilog2 y - 52)"
    have "x / ?u \<le> y / ?u" using assms(2) by (simp add: divide_right_mono)
    then have "round_half_even (x / ?u) \<le> round_half_even (y / ?u)" by (rule round_half_even_mono)
    then have "(of_int (round_half_even (x / ?u)) :: rat) * ?u \<le> of_int (round_half_even (y / ?u)) * ?u"
      by (intro mult_right_mono) auto
    then show ?thesis by (simp add: round_double_pos[OF assms(1)] round_double_pos[OF y] True)
  next
    case False
    then have "ilog2 x + 1 \<le> ilog2 y" using le by simp
    then have "(2::rat) powi (ilog2 x + 1) \<le> 2 powi (ilog2 y)" by (simp add: pow2_le_iff)
    then show ?thesis using round_double_range(2)[OF assms(1)] round_double_range(1)[OF y] by linarith
  qed
qed

lemma round_double_mono:
  assumes "x \<le> y"
  shows "round_double x \<le> round_double y"
proof -
  consider "0 < x" | "x \<le> 0" "0 < y" | "y < 0" | "x < 0" "y = 0" | "x = 0" "y = 0"
    using assms by linarith
  then show ?thesis
  proof cases
    case 1 then show ?thesis using assms by (rule round_double_mono_pos)
  next
    case 2
    have "round_double x \<le> 0"
    proof (cases "x = 0")
      case False
      then have "0 < - x" using 2 by simp
      from round_double_pos_pos[OF this] show ?thesis by (simp add: round_double_minus)
    qed simp
    then show ?thesis using round_double_pos_pos[OF 2(2)] by linarith
  next
    case 3
    then have "0 < - y" "- y \<le> - x" using assms by simp_all
    then have "round_double (- y) \<le> round_double (- x)" by (rule round_double_mono_pos)
    then show ?thesis by (simp add: round_double_minus)
  next
    case 4
    then have "0 < - x" by simp
    from round_double_pos_pos[OF this] show ?thesis using 4 by (simp add: round_double_minus)
  next
    case 5 then show ?thesis by simp
  qed
qed

lemma round_double_exact_pos:
  assumes "0 < n" and "n < 2 ^ 53"
  shows "round_double (of_int n * 2 powi k) = of_int n * 2 powi k"
proof -
  let ?x = "of_int n * (2::rat) powi k"
  have x: "0 < ?x" using assms(1) by simp
  have "?x < 2 ^ 53 * 2 powi k"
  proof -
    have "(of_int n :: rat) < of_int (2 ^ 53)" using assms(2) by (simp only: of_int_less_iff)
    then show ?thesis by (simp add: mult_strict_right_mono)
  qed
  also have "\<dots> = 2 powi (53 + k)" by (simp add: power_int_add)
  finally have "(2::rat) powi (ilog2 ?x) < 2 powi (53 + k)"
    using ilog2_bounds(1)[OF x] by linarith
  then have "ilog2 ?x < 53 + k" by (simp only: pow2_less_iff)
  then have j: "0 \<le> k - (ilog2 ?x - 52)" by simp
  have "?x / 2 powi (ilog2 ?x - 52) = of_int n * 2 powi (k - (ilog2 ?x - 52))"
    by (simp add: power_int_diff)
  also have "\<dots> = of_int (n * 2 ^ nat (k - (ilog2 ?x - 52)))"
    using j by (simp add: power_int_def)
  finally have "round_half_even (?x / 2 powi (ilog2 ?x - 52)) = n * 2 ^ nat (k - (ilog2 ?x - 52))"
    by (simp only: round_half_even_of_int)
  then have "round_double ?x = of_int (n * 2 ^ nat (k - (ilog2 ?x - 52))) * 2 powi (ilog2 ?x - 52)"
    by (simp only: round_double_pos[OF x])
  also have "\<dots> = of_int n * (2 powi (k - (ilog2 ?x - 52)) * 2 powi (ilog2 ?x - 52))"
    using j by (simp add: power_int_def)
  also have "\<dots> = ?x" by (simp add: power_int_add[symmetric])
  finally show ?thesis .
qed

lemma round_double_of_int:
  assumes "\<bar>n\<bar> < 2 ^ 53"
  shows "round_double (of_int n) = of_int n"
proof -
  consider "0 < n" | "n = 0" | "n < 0" by linarith
  then show ?thesis
  proof cases
    case 1
    with assms show ?thesis using round_double_exact_pos[of n 0] by simp
  next
    case 2 then show ?thesis by simp
  next
    case 3
    with assms have "round_double (of_int (- n)) = of_int (- n)"
      using round_double_exact_pos[of "- n" 0] by simp
    then show ?thesis by (simp add: round_double_minus)
  qed
qed

lemma round_half_even_unique:
  assumes "\<bar>y - of_int m\<bar> < 1 / 2 \<or> (\<bar>y - of_int m\<bar> = 1 / 2 \<and> even m)"
  shows "round_half_even y = m"
  using assms
proof (elim disjE conjE)
  assume near: "\<bar>y - of_int m\<bar> < 1 / 2"
  have "of_int (round_half_even y) \<le> y + 1 / 2" "y - 1 / 2 \<le> of_int (round_half_even y)"
    by (rule round_half_even_near)+
  with near have "\<bar>(of_int (round_half_even y) :: rat) - of_int m\<bar> < 1" by linarith
  then have "\<bar>(of_int (round_half_even y - m) :: rat)\<bar> < of_int 1" by simp
  then have "\<bar>round_half_even y - m\<bar> < 1" by (simp only: of_int_abs[symmetric] of_int_less_iff)
  then show ?thesis by simp
next
  assume tie: "\<bar>y - of_int m\<bar> = 1 / 2" and m: "even m"
  then consider "y = of_int m + 1 / 2" | "y = of_int m - 1 / 2" by (auto simp: abs_if split: if_splits)
  then show ?thesis
  proof cases
    case 1
    have "\<lfloor>y\<rfloor> = m" unfolding 1 by (rule floor_unique) simp_all
    then show ?thesis using m by (simp add: round_half_even_def Let_def 1)
  next
    case 2
    have f: "\<lfloor>y\<rfloor> = m - 1" unfolding 2 by (rule floor_unique) simp_all
    have "odd (m - 1)" using m by simp
    then show ?thesis by (simp add: round_half_even_def Let_def f) (simp add: 2)
  qed
qed

lemma round_double_cert:
  assumes "m < 2 ^ 53" and "2 ^ 52 * 2 powi k \<le> x"
    and "\<bar>x - of_int m * 2 powi k\<bar> < 2 powi k / 2
         \<or> (\<bar>x - of_int m * 2 powi k\<bar> = 2 powi k / 2 \<and> even m)"
  shows "round_double x = of_int m * 2 powi k"
proof -
  let ?u = "(2::rat) powi k"
  have u: "0 < ?u" by simp
  have "0 < 2 ^ 52 * ?u" using u by simp
  then have x: "0 < x" using assms(2) by linarith
  have "x / ?u - of_int m = (x - of_int m * ?u) / ?u"
    using u by (simp add: diff_divide_distrib)
  then have a: "\<bar>x / ?u - of_int m\<bar> = \<bar>x - of_int m * ?u\<bar> / ?u"
    using u by (simp only: abs_divide)
  have h: "(?u / 2) / ?u = 1 / 2" using u by simp
  have near: "\<bar>x / ?u - of_int m\<bar> < 1 / 2 \<or> (\<bar>x / ?u - of_int m\<bar> = 1 / 2 \<and> even m)"
    using assms(3)
  proof (elim disjE conjE)
    assume "\<bar>x - of_int m * ?u\<bar> < ?u / 2"
    then have "\<bar>x - of_int m * ?u\<bar> / ?u < (?u / 2) / ?u" using u by (simp add: divide_strict_right_mono)
    then show ?thesis by (simp only: a h) simp
  next
    assume "\<bar>x - of_int m * ?u\<bar> = ?u / 2" and "even m"
    then show ?thesis by (simp only: a h) simp
  qed
  have "m \<le> 2 ^ 53 - 1" using assms(1) by simp
  then have "(of_int m :: rat) \<le> of_int (2 ^ 53 - 1)" by (rule of_int_le_iff[THEN iffD2])
  then have m': "(of_int m :: rat) \<le> 2 ^ 53 - 1" by simp
  have "\<bar>x / ?u - of_int m\<bar> \<le> 1 / 2" using near by (elim disjE conjE) simp_all
  moreover have "x / ?u - of_int m \<le> \<bar>x / ?u - of_int m\<bar>" by (rule abs_ge_self)
  ultimately have "x / ?u - of_int m \<le> 1 / 2" by (rule order_trans[rotated])
  with m' have "x / ?u < 2 ^ 53" by linarith
  then have hi: "x < 2 powi (k + 52 + 1)" using u by (simp add: pos_divide_less_eq power_int_add)
  have lo: "2 powi (k + 52) \<le> x" using assms(2) by (simp add: power_int_add mult.commute)
  have e: "ilog2 x = k + 52" using lo hi by (rule ilog2_unique)
  have "round_half_even (x / ?u) = m" using near by (rule round_half_even_unique)
  then show ?thesis by (simp add: round_double_pos[OF x] e)
qed

lemma d0_7_value: "d0_7 = 6305039478318694 * 2 powi (- 53)"
  unfolding d0_7_def using round_double_cert[of 6305039478318694 "- 53" "7 / 10"] by simp

lemma round_double_upper:
  assumes "0 < x"
  shows "round_double x \<le> x + x / 2 ^ 53"
proof -
  define u where "u = (2::rat) powi (ilog2 x - 52)"
  have u: "0 < u" unfolding u_def by (rule pow2_pos)
  have "u * 2 ^ 52 = 2 powi (ilog2 x)" unfolding u_def by (simp add: power_int_diff)
  then have "u * 2 ^ 52 \<le> x" using ilog2_bounds(1)[OF assms] by simp
  then have "u * 2 ^ 52 / 2 ^ 53 \<le> x / 2 ^ 53" by (simp only: divide_right_mono zero_le_power zero_le_numeral)
  then have h: "u / 2 \<le> x / 2 ^ 53" by simp
  have "of_int (round_half_even (x / u)) * u \<le> (x / u + 1 / 2) * u"
    using round_half_even_near(1)[of "x / u"] u by (simp only: mult_right_mono less_imp_le)
  also have "\<dots> = x + u / 2" using u by (simp add: distrib_right)
  finally have "round_double x \<le> x + u / 2"
    unfolding round_double_pos[OF assms] u_def[symmetric] .
  with h show ?thesis by linarith
qed

lemma round_double_lower:
  assumes "0 < x"
  shows "x - x / 2 ^ 53 \<le> round_double x"
proof -
  define u where "u = (2::rat) powi (ilog2 x - 52)"
  have u: "0 < u" unfolding u_def by (rule pow2_pos)
  have "u * 2 ^ 52 = 2 powi (ilog2 x)" unfolding u_def by (simp add: power_int_diff)
  then have "u * 2 ^ 52 \<le> x" using ilog2_bounds(1)[OF assms] by simp
  then have "u * 2 ^ 52 / 2 ^ 53 \<le> x / 2 ^ 53" by (simp only: divide_right_mono zero_le_power zero_le_numeral)
  then have h: "u / 2 \<le> x / 2 ^ 53" by simp
  have "(x / u - 1 / 2) * u \<le> of_int (round_half_even (x / u)) * u"
    using round_half_even_near(2)[of "x / u"] u by (simp only: mult_right_mono less_imp_le)
  moreover have "(x / u - 1 / 2) * u = x - u / 2" using u by (simp add: left_diff_distrib)
  ultimately have "x - u / 2 \<le> round_double x"
    unfolding round_double_pos[OF assms] u_def[symmetric] by simp
  with h show ?thesis by linarith
qed

section \<open>Slices and sorts\<close>

lemma set_js_slice: "set (js_slice xs a b) \<subseteq> set xs"
  unfolding js_slice_def Let_def
  by (meson set_drop_subset set_take_subset subset_trans)

lemma sorted_wrt_js_slice: "sorted_wrt P xs \<Longrightarrow> sorted_wrt P (js_slice xs a b)"
  unfolding js_slice_def Let_def by simp

lemma distinct_map_js_slice: "distinct (map f xs) \<Longrightarrow> distinct (map f (js_slice xs a b))"
  unfolding js_slice_def Let_def
  by (metis distinct_drop distinct_take drop_map take_map)

lemma set_sort_desc [simp]: "set (sort_desc f xs) = set xs"
  by (simp add: sort_desc_def)

lemma length_sort_desc [simp]: "length (sort_desc f xs) = length xs"
  by (simp add: sort_desc_def)

lemma mset_sort_desc [simp]: "mset (sort_desc f xs) = mset xs"
  by (simp add: sort_desc_def)

lemma set_sort_desc2 [simp]: "set (sort_desc2 f g xs) = set xs"
  by (simp add: sort_desc2_def)

lemma length_sort_desc2 [simp]: "length (sort_desc2 f g xs) = length xs"
  by (simp add: sort_desc2_def)

lemma mset_sort_desc2 [simp]: "mset (sort_desc2 f g xs) = mset xs"
  by (simp add: sort_desc2_def)

lemma sorted_sort_desc:
  fixes f :: "'a \<Rightarrow> 'k::linordered_idom"
  shows "sorted_wrt (\<lambda>a b. f b \<le> f a) (sort_desc f xs)"
proof -
  have "sorted (map (\<lambda>x. - f x) (sort_key (\<lambda>x. - f x) xs))" by (rule sorted_sort_key)
  then show ?thesis by (simp add: sort_desc_def sorted_map)
qed

lemma sorted_sort_desc2:
  fixes f :: "'a \<Rightarrow> 'k::linordered_idom" and g :: "'a \<Rightarrow> 'l::linordered_idom"
  shows "sorted_wrt (\<lambda>a b. f b < f a \<or> (f b = f a \<and> g b \<le> g a)) (sort_desc2 f g xs)"
proof -
  have "sorted (map (\<lambda>x. (- f x, - g x)) (sort_key (\<lambda>x. (- f x, - g x)) xs))"
    by (rule sorted_sort_key)
  then have "sorted_wrt (\<lambda>x y. f y < f x \<or> f y \<le> f x \<and> g y \<le> g x) (sort_desc2 f g xs)"
    by (simp add: sort_desc2_def sorted_map less_eq_prod_def)
  then show ?thesis
    by (rule sorted_wrt_mono_rel[rotated]) auto
qed

lemma distinct_map_mset:
  assumes "mset xs = mset ys"
  shows "distinct (map f xs) = distinct (map f ys)"
proof -
  have "mset (map f xs) = mset (map f ys)" using assms by (metis mset_map)
  then show ?thesis by (rule mset_eq_imp_distinct_iff)
qed

lemma distinct_map_sort_desc [simp]: "distinct (map h (sort_desc f xs)) = distinct (map h xs)"
  by (rule distinct_map_mset) simp

lemma distinct_map_sort_desc2 [simp]:
  "distinct (map h (sort_desc2 f g xs)) = distinct (map h xs)"
  by (rule distinct_map_mset) simp

section \<open>What each retrieval stage returns\<close>

lemma populate_post_fields [simp]:
  "post_id (populate_post s p) = post_id p"
  "author (populate_post s p) = author p"
  "isPublic (populate_post s p) = isPublic p"
  "createdAt (populate_post s p) = createdAt p"
  "comments (populate_post s p) = comments p"
  "likes (populate_post s p) = populate_refs s (likes p)"
  by (simp_all add: populate_post_def)

lemma set_find_limit: "set (find_limit n xs) \<subseteq> set xs"
  by (auto simp: find_limit_def dest: in_set_takeD)

lemma followingPosts_mem:
  assumes "p \<in> set (followingPosts s followingIds limit)"
  shows "\<exists>q \<in> set (Posts s). p = populate_post s q \<and> author q \<in> set followingIds \<and> isPublic q"
proof -
  from assms obtain q where
    "q \<in> set (find_limit (followingPostsCount limit)
       (sort_desc createdAt (filter (\<lambda>p. author p \<in> set followingIds \<and> isPublic p) (Posts s))))"
    and "p = populate_post s q"
    by (auto simp: followingPosts_def)
  moreover from this(1) have "q \<in> set (filter (\<lambda>p. author p \<in> set followingIds \<and> isPublic p) (Posts s))"
    using set_find_limit by fastforce
  ultimately show ?thesis by auto
qed

lemma postsLikedByFollowing_mem:
  assumes "x \<in> set (postsLikedByFollowing s viewer followingIds excluded rc)"
  shows "\<exists>q \<in> set (Posts s). x = LikedByFollowing (populate_post s q) (likedByFollowing s followingIds q)
           \<and> post_id q \<notin> set excluded \<and> author q \<noteq> viewer \<and> author q \<notin> set followingIds
           \<and> isPublic q \<and> 0 < likedByFollowing s followingIds q"
  using assms unfolding postsLikedByFollowing_def
  by (auto dest!: in_set_takeD)

lemma popularPosts_mem:
  assumes "x \<in> set (popularPosts s viewer followingIds excluded rc)"
  shows "\<exists>q \<in> set (Posts s). x = Popular (populate_post s q) (engagementScore q)
           \<and> post_id q \<notin> set excluded \<and> author q \<noteq> viewer \<and> author q \<notin> set followingIds
           \<and> isPublic q"
  using assms unfolding popularPosts_def
  by (auto dest!: in_set_takeD)

lemma recommendedPosts_mem:
  assumes "x \<in> set (recommendedPosts s viewer followingIds fps rc)"
  shows "\<exists>q \<in> set (Posts s). populate_post s q = item_doc x
           \<and> post_id q \<notin> set (map post_id fps) \<and> author q \<noteq> viewer \<and> author q \<notin> set followingIds
           \<and> isPublic q"
  using assms unfolding recommendedPosts_def
  by (auto simp: Let_def split: if_splits dest!: postsLikedByFollowing_mem popularPosts_mem)

lemma candidates_public:
  assumes "x \<in> set (candidates s viewer followingIds limit)"
  shows "isPublic (item_doc x)"
  using assms unfolding candidates_def Let_def
  by (auto dest!: followingPosts_mem recommendedPosts_mem) (metis populate_post_fields(3))+

section \<open>Evaluation on the example store\<close>

lemma followingPostsCount_10: "followingPostsCount 10 = 7"
proof -
  have "round_double (10 * d0_7) = 7"
    using round_double_cert[of 7881299347898368 "- 50" "10 * d0_7"] by (simp add: d0_7_value)
  then show ?thesis by (simp add: followingPostsCount_def dmul_def)
qed

lemma round_double_d0_7: "round_double d0_7 = d0_7"
  using round_double_cert[of 6305039478318694 "- 53" "d0_7"] by (simp add: d0_7_value)

lemma followingPostsCount_1: "followingPostsCount 1 = 0"
  by (simp add: followingPostsCount_def dmul_def round_double_d0_7) (simp add: d0_7_value floor_eq_iff)

lemma demo_findById: "findById demo_db 5 = Some \<lparr>user_id = 5, following = [2], followers = []\<rparr>"
  by (simp add: findById_def demo_db_def)

lemma demo_following: "populate_refs demo_db [2] = [2]"
  by (simp add: populate_refs_def findById_def demo_db_def)

lemma demo_candidates:
  "map (post_id \<circ> item_doc) (candidates demo_db 5 [2] 10) = [11, 10, 12, 14]"
  by (simp add: candidates_def followingPosts_def followingPostsCount_10 find_limit_def
      sort_desc_def sort_desc2_def recommendedPosts_def postsLikedByFollowing_def popularPosts_def
      likedByFollowing_def engagementScore_def populate_post_def populate_refs_def findById_def
      demo_db_def demo_post_def Let_def less_eq_prod_def)

lemma recencyFactor_mono: "t1 \<le> t2 \<Longrightarrow> recencyFactor t1 \<le> recencyFactor t2"
  unfolding recencyFactor_def ddiv_def
  by (intro round_double_mono divide_right_mono) simp_all

lemma recencyFactor_strict:
  assumes "0 \<le> t1" and "t1 < t2" and "t2 < 2 ^ 52"
  shows "recencyFactor t1 < recencyFactor t2"
proof -
  define x :: rat where "x = of_int t1 / 1000000"
  define y :: rat where "y = of_int t2 / 1000000"
  have "t1 + 1 \<le> t2" using assms(2) by simp
  then have "(of_int (t1 + 1) :: rat) \<le> of_int t2" by (simp only: of_int_le_iff)
  then have d: "(of_int t1 :: rat) + 1 \<le> of_int t2" by simp
  have "t2 \<le> 2 ^ 52 - 1" using assms(3) by simp
  then have "(of_int t2 :: rat) \<le> of_int (2 ^ 52 - 1)" by (simp only: of_int_le_iff)
  then have b: "(of_int t2 :: rat) \<le> 4503599627370495" by simp
  have t1: "(0::rat) \<le> of_int t1" using assms(1) by simp
  have y: "0 < y" unfolding y_def using d t1 by simp
  have ly: "y - y / 2 ^ 53 \<le> round_double y" using y by (rule round_double_lower)
  show ?thesis
  proof (cases "t1 = 0")
    case True
    then have "recencyFactor t1 = 0" by (simp add: recencyFactor_def ddiv_def)
    moreover have "0 < round_double y" using y by (rule round_double_pos_pos)
    ultimately show ?thesis by (simp add: recencyFactor_def ddiv_def y_def)
  next
    case False
    then have "0 < t1" using assms(1) by simp
    then have x: "0 < x" unfolding x_def by simp
    have ux: "round_double x \<le> x + x / 2 ^ 53" using x by (rule round_double_upper)
    have "round_double x < round_double y"
      using ux ly d b t1 unfolding x_def y_def by simp
    then show ?thesis by (simp add: recencyFactor_def ddiv_def x_def y_def)
  qed
qed

lemma getPersonalizedFeed_Inr:
  assumes "getPersonalizedFeed s viewer pageQ limitQ = Inr r"
  obtains user where "findById s viewer = Some user"
    and "posts r = js_slice (allPosts s viewer (populate_refs s (following user)) (js_or limitQ 10))
                     ((js_or pageQ 1 - 1) * js_or limitQ 10)
                     ((js_or pageQ 1 - 1) * js_or limitQ 10 + js_or limitQ 10)"
    and "totalPosts r = int (length (allPosts s viewer (populate_refs s (following user)) (js_or limitQ 10)))"
    and "totalPages r = totalPagesOf (totalPosts r) (js_or limitQ 10)"
    and "currentPage r = js_or pageQ 1"
  using assms unfolding getPersonalizedFeed_def Let_def
  by (auto split: option.splits)

lemma getPersonalizedFeed_found:
  assumes "findById s viewer = Some user"
  shows "getPersonalizedFeed s viewer pageQ limitQ =
     Inr \<lparr>posts = js_slice (allPosts s viewer (populate_refs s (following user)) (js_or limitQ 10))
                     ((js_or pageQ 1 - 1) * js_or limitQ 10)
                     ((js_or pageQ 1 - 1) * js_or limitQ 10 + js_or limitQ 10),
          currentPage = js_or pageQ 1,
          totalPages = totalPagesOf
             (int (length (allPosts s viewer (populate_refs s (following user)) (js_or limitQ 10))))
             (js_or limitQ 10),
          totalPosts = int (length (allPosts s viewer (populate_refs s (following user)) (js_or limitQ 10))),
          feedType = ''personalized''\<rparr>"
  using assms by (simp add: getPersonalizedFeed_def Let_def)

lemma demo_allPosts_length: "length (allPosts demo_db 5 [2] 10) = 4"
proof -
  have "length (allPosts demo_db 5 [2] 10)
          = length (map (post_id \<circ> item_doc) (candidates demo_db 5 [2] 10))"
    by (simp add: allPosts_def)
  then show ?thesis by (simp only: demo_candidates) simp
qed

lemma demo_page_1: "getPersonalizedFeed demo_db 5 (Some 1) (Some 10) = Inr demo_page"
  by (simp add: getPersonalizedFeed_found[OF demo_findById] demo_following js_or_def
      demo_allPosts_length demo_page_def)

lemma demo_page_length: "length (posts demo_page) = 4"
  by (simp add: demo_page_def js_slice_def demo_allPosts_length Let_def)

section \<open>The claims\<close>

subsection \<open>Ordering of the personalized page\<close>

text \<open>
  C1. The page of the personalized feed is in descending order of the unified score
  \<open>0.3 \<times> (likes + 2 \<times> comments) + 0.7 \<times> recencyFactor\<close>. The recency factor increases
  with the creation timestamp: it is strictly larger for the later of two timestamps
  between the epoch and \<open>2\<^sup>5\<^sup>2\<close> ms after it (an older post has the smaller factor), and it
  never decreases on any pair of timestamps.
\<close>

theorem personalized_page_descending:
  "(getPersonalizedFeed s viewer pageQ limitQ = Inr r \<longrightarrow>
      sorted_wrt (\<lambda>a b. unifiedScore b \<le> unifiedScore a) (posts r))
   \<and> unifiedScore a =
         dadd (dmul (of_int (int (length (likes (item_doc a)))
                             + int (length (comments (item_doc a))) * 2)) d0_3)
              (dmul (recencyFactor (createdAt (item_doc a))) d0_7)
   \<and> (0 \<le> t1 \<and> t1 < t2 \<and> t2 < 2 ^ 52 \<longrightarrow> recencyFactor t1 < recencyFactor t2)
   \<and> (t1 \<le> t2 \<longrightarrow> recencyFactor t1 \<le> recencyFactor t2)"
proof (intro impI conjI)
  assume a: "getPersonalizedFeed s viewer pageQ limitQ = Inr r"
  from a obtain user :: user_doc where
    "posts r = js_slice (allPosts s viewer (populate_refs s (following user)) (js_or limitQ 10))
                     ((js_or pageQ 1 - 1) * js_or limitQ 10)
                     ((js_or pageQ 1 - 1) * js_or limitQ 10 + js_or limitQ 10)"
    by (rule getPersonalizedFeed_Inr)
  then show "sorted_wrt (\<lambda>a b. unifiedScore b \<le> unifiedScore a) (posts r)"
    by (simp add: allPosts_def sorted_wrt_js_slice sorted_sort_desc)
next
  show "unifiedScore a =
           dadd (dmul (of_int (int (length (likes (item_doc a)))
                               + int (length (comments (item_doc a))) * 2)) d0_3)
                (dmul (recencyFactor (createdAt (item_doc a))) d0_7)"
    by (simp add: unifiedScore_def engagementScore_def)
next
  assume "0 \<le> t1 \<and> t1 < t2 \<and> t2 < 2 ^ 52"
  then show "recencyFactor t1 < recencyFactor t2" by (intro recencyFactor_strict) simp_all
next
  assume "t1 \<le> t2"
  then show "recencyFactor t1 \<le> recencyFactor t2" by (rule recencyFactor_mono)
qed

theorem personalized_page_descending_witness:
  "getPersonalizedFeed demo_db 5 (Some 1) (Some 10) = Inr demo_page
   \<and> length (posts demo_page) = 4
   \<and> sorted_wrt (\<lambda>a b. unifiedScore b \<le> unifiedScore a) (posts demo_page)
   \<and> (0::int) \<le> 1700000000000 \<and> (1700000000000::int) < 1700000000001
   \<and> (1700000000001::int) < 2 ^ 52
   \<and> recencyFactor 1700000000000 < recencyFactor 1700000000001
   \<and> recencyFactor 1700000000000 \<le> recencyFactor 1700000000001"
  using personalized_page_descending[of demo_db 5 "Some 1" "Some 10" demo_page
      "Following (demo_post 10 2 [] 0 True 1000)" 1700000000000 1700000000001]
    demo_page_1 demo_page_length
  by simp

subsection \<open>Visibility\<close>

lemma getTrendingFeed_Inr:
  assumes "getTrendingFeed s now pageQ limitQ = Inr r"
  shows "0 \<le> (js_or pageQ 1 - 1) * js_or limitQ 10 \<and> 0 < js_or limitQ 10
     \<and> posts r = map (\<lambda>d. d\<lparr>trending_post := populate_post s (trending_post d)\<rparr>)
           (take (nat (js_or limitQ 10)) (drop (nat ((js_or pageQ 1 - 1) * js_or limitQ 10))
              (trending_ranked s now)))
     \<and> currentPage r = js_or pageQ 1
     \<and> totalPosts r = int (length (filter isPublic (Posts s)))
     \<and> totalPages r = totalPagesOf (totalPosts r) (js_or limitQ 10)
     \<and> feedType r = ''trending''"
  using assms unfolding getTrendingFeed_def trendingPosts_def aggregate_accepts_def Let_def
  by (auto split: if_splits)

lemma trending_ranked_mem:
  "d \<in> set (trending_ranked s now) \<Longrightarrow> \<exists>p \<in> set (Posts s). isPublic p \<and> d = trending_fields now p"
  by (auto simp: trending_ranked_def)

lemma trending_fields_post [simp]: "trending_post (trending_fields now p) = p"
  by (simp add: trending_fields_def Let_def)

lemma collect_Inr:
  "collect xs = Inr vs \<Longrightarrow> xs = map Inr vs"
  by (induction xs arbitrary: vs) (auto split: sum.splits)

lemma discover_fields_post: "discover_fields s p = Inr d \<Longrightarrow> discover_post d = p"
  by (auto simp: discover_fields_def Let_def split: list.splits)

lemma discoverPosts_mem:
  assumes "discoverPosts s viewer followingIds skip limit = Inr ds" and "d \<in> set ds"
  shows "isPublic (discover_post d) \<and> author (discover_post d) \<noteq> viewer
         \<and> author (discover_post d) \<notin> set followingIds \<and> discover_post d \<in> set (Posts s)"
proof -
  from assms(1) obtain vs where
    c: "collect (map (discover_fields s) (filter (discover_match viewer followingIds) (Posts s))) = Inr vs"
    and ds: "ds = take (nat limit) (drop (nat skip) (sort_desc2 discoveryScore (createdAt \<circ> discover_post) vs))"
    by (auto simp: discoverPosts_def split: if_splits sum.splits)
  from ds assms(2) have "d \<in> set vs"
    by (auto dest!: in_set_takeD in_set_dropD)
  then have "Inr d \<in> set (map (discover_fields s) (filter (discover_match viewer followingIds) (Posts s)))"
    using collect_Inr[OF c] by simp
  then obtain p where p: "p \<in> set (Posts s)" "discover_match viewer followingIds p"
    and "discover_fields s p = Inr d" by auto
  then have "discover_post d = p" by (simp add: discover_fields_post)
  with p show ?thesis by (auto simp: discover_match_def)
qed

lemma getDiscoverFeed_Inr:
  assumes "getDiscoverFeed s viewer pageQ limitQ = Inr r"
  obtains user :: user_doc and ds where "findById s viewer = Some user"
    and "discoverPosts s viewer (following user) ((js_or pageQ 1 - 1) * js_or limitQ 10) (js_or limitQ 10) = Inr ds"
    and "posts r = map (\<lambda>d. d\<lparr>discover_post := populate_post s (discover_post d)\<rparr>) ds"
    and "currentPage r = js_or pageQ 1"
  using assms unfolding getDiscoverFeed_def Let_def
  by (auto split: option.splits sum.splits)

lemma personalized_public:
  assumes "getPersonalizedFeed s viewer pageQ limitQ = Inr r" and "x \<in> set (posts r)"
  shows "isPublic (item_doc x)"
proof -
  from assms(1) obtain user :: user_doc where
    "posts r = js_slice (allPosts s viewer (populate_refs s (following user)) (js_or limitQ 10))
                     ((js_or pageQ 1 - 1) * js_or limitQ 10)
                     ((js_or pageQ 1 - 1) * js_or limitQ 10 + js_or limitQ 10)"
    by (rule getPersonalizedFeed_Inr)
  with assms(2) have "x \<in> set (allPosts s viewer (populate_refs s (following user)) (js_or limitQ 10))"
    using set_js_slice by fastforce
  then show ?thesis by (auto simp: allPosts_def dest: candidates_public)
qed

lemma trending_public:
  assumes "getTrendingFeed s now pageQ limitQ = Inr r" and "d \<in> set (posts r)"
  shows "isPublic (trending_post d)"
proof -
  from getTrendingFeed_Inr[OF assms(1)] assms(2)
  obtain e where "e \<in> set (trending_ranked s now)"
    and "d = e\<lparr>trending_post := populate_post s (trending_post e)\<rparr>"
    by (auto dest!: in_set_takeD in_set_dropD)
  then show ?thesis by (auto dest!: trending_ranked_mem)
qed

lemma discover_public:
  assumes "getDiscoverFeed s viewer pageQ limitQ = Inr r" and "d \<in> set (posts r)"
  shows "isPublic (discover_post d)"
proof -
  from assms(1) obtain user :: user_doc and ds where
    dp: "discoverPosts s viewer (following user) ((js_or pageQ 1 - 1) * js_or limitQ 10) (js_or limitQ 10) = Inr ds"
    and "posts r = map (\<lambda>d. d\<lparr>discover_post := populate_post s (discover_post d)\<rparr>) ds"
    by (rule getDiscoverFeed_Inr)
  with assms(2) obtain e where "e \<in> set ds" and "d = e\<lparr>discover_post := populate_post s (discover_post e)\<rparr>"
    by auto
  then show ?thesis using discoverPosts_mem[OF dp] by simp
qed

text \<open>
  C9. Every item of every page composed by the personalized, trending and discover feeds
  is public or authored by the viewer: a private post of another author never appears.
\<close>

theorem composed_feeds_public_or_own:
  "(getPersonalizedFeed s viewer pageQ limitQ = Inr r1 \<longrightarrow>
      (\<forall>x \<in> set (posts r1). isPublic (item_doc x) \<or> author (item_doc x) = viewer))
   \<and> (getTrendingFeed s now pageQ limitQ = Inr r2 \<longrightarrow>
      (\<forall>d \<in> set (posts r2). isPublic (trending_post d) \<or> author (trending_post d) = viewer))
   \<and> (getDiscoverFeed s viewer pageQ limitQ = Inr r3 \<longrightarrow>
      (\<forall>d \<in> set (posts r3). isPublic (discover_post d) \<or> author (discover_post d) = viewer))"
  using personalized_public trending_public discover_public by blast


lemma getTrendingFeed_isl:
  "isl (getTrendingFeed s now pageQ limitQ)
     \<longleftrightarrow> \<not> aggregate_accepts ((js_or pageQ 1 - 1) * js_or limitQ 10) (js_or limitQ 10)"
  by (simp add: getTrendingFeed_def trendingPosts_def Let_def)

lemma demo_trending_ok: "\<not> isl (getTrendingFeed demo_db 5000 (Some 1) (Some 10))"
  by (simp add: getTrendingFeed_isl js_or_def aggregate_accepts_def)

lemma demo_discoverPosts_ok: "\<not> isl (discoverPosts demo_db 5 [2] 0 10)"
  by (simp add: discoverPosts_def discover_match_def discover_fields_def demo_db_def
      demo_post_def Let_def aggregate_accepts_def)

lemma demo_discover_ok: "\<not> isl (getDiscoverFeed demo_db 5 (Some 1) (Some 10))"
  using demo_discoverPosts_ok
  by (cases "discoverPosts demo_db 5 [2] 0 10")
     (simp_all add: getDiscoverFeed_def demo_findById js_or_def Let_def)

theorem composed_feeds_public_or_own_witness:
  "getPersonalizedFeed demo_db 5 (Some 1) (Some 10) = Inr demo_page
   \<and> list_all (\<lambda>x. isPublic (item_doc x) \<or> author (item_doc x) = 5) (posts demo_page)
   \<and> \<not> isl (getTrendingFeed demo_db 5000 (Some 1) (Some 10))
   \<and> list_all (\<lambda>d. isPublic (trending_post d) \<or> author (trending_post d) = 5)
        (posts (projr (getTrendingFeed demo_db 5000 (Some 1) (Some 10))))
   \<and> \<not> isl (getDiscoverFeed demo_db 5 (Some 1) (Some 10))
   \<and> list_all (\<lambda>d. isPublic (discover_post d) \<or> author (discover_post d) = 5)
        (posts (projr (getDiscoverFeed demo_db 5 (Some 1) (Some 10))))"
proof -
  have t: "getTrendingFeed demo_db 5000 (Some 1) (Some 10)
             = Inr (projr (getTrendingFeed demo_db 5000 (Some 1) (Some 10)))"
    using demo_trending_ok by simp
  have d: "getDiscoverFeed demo_db 5 (Some 1) (Some 10)
             = Inr (projr (getDiscoverFeed demo_db 5 (Some 1) (Some 10)))"
    using demo_discover_ok by simp
  from composed_feeds_public_or_own[of demo_db 5 "Some 1" "Some 10" demo_page 5000
      "projr (getTrendingFeed demo_db 5000 (Some 1) (Some 10))"
      "projr (getDiscoverFeed demo_db 5 (Some 1) (Some 10))"]
    demo_page_1 t d demo_trending_ok demo_discover_ok
  show ?thesis unfolding list_all_iff by blast
qed

subsection \<open>Duplicates\<close>

lemma distinct_map_find_limit:
  "distinct (map f xs) \<Longrightarrow> distinct (map f (find_limit n xs))"
  by (simp add: find_limit_def distinct_take take_map[symmetric] del: take_map)

lemma distinct_map_take: "distinct (map f xs) \<Longrightarrow> distinct (map f (take n xs))"
  by (simp add: distinct_take take_map[symmetric] del: take_map)

lemma followingPosts_ids_distinct:
  assumes "distinct (map post_id (Posts s))"
  shows "distinct (map post_id (followingPosts s followingIds limit))"
proof -
  have "map post_id (followingPosts s followingIds limit)
      = map post_id (find_limit (followingPostsCount limit)
         (sort_desc createdAt (filter (\<lambda>p. author p \<in> set followingIds \<and> isPublic p) (Posts s))))"
    by (simp add: followingPosts_def comp_def)
  then show ?thesis using assms
    by (simp add: distinct_map_find_limit distinct_map_filter)
qed

lemma postsLikedByFollowing_ids_distinct:
  assumes "distinct (map post_id (Posts s))"
  shows "distinct (map (post_id \<circ> item_doc) (postsLikedByFollowing s viewer followingIds excluded rc))"
proof -
  let ?m = "filter (\<lambda>p. post_id p \<notin> set excluded
                            \<and> author p \<notin> set (viewer # followingIds) \<and> isPublic p) (Posts s)"
  let ?l = "take (nat rc) (sort_desc2 (\<lambda>(p, n). int n) (\<lambda>(p, n). createdAt p)
             (filter (\<lambda>(p, n). 0 < n) (map (\<lambda>p. (p, likedByFollowing s followingIds p)) ?m)))"
  have "map (post_id \<circ> item_doc) (postsLikedByFollowing s viewer followingIds excluded rc)
      = map (post_id \<circ> fst) ?l"
    by (simp add: postsLikedByFollowing_def comp_def case_prod_beta)
  moreover have "distinct (map (post_id \<circ> fst) (map (\<lambda>p. (p, likedByFollowing s followingIds p)) ?m))"
    using assms by (simp add: comp_def distinct_map_filter)
  then have "distinct (map (post_id \<circ> fst) ?l)"
    by (intro distinct_map_take) (simp add: distinct_map_filter)
  ultimately show ?thesis by simp
qed

lemma popularPosts_ids_distinct:
  assumes "distinct (map post_id (Posts s))"
  shows "distinct (map (post_id \<circ> item_doc) (popularPosts s viewer followingIds excluded rc))"
proof -
  let ?m = "filter (\<lambda>p. post_id p \<notin> set excluded
                            \<and> author p \<notin> set (viewer # followingIds) \<and> isPublic p) (Posts s)"
  let ?l = "take (nat rc) (sort_desc2 (\<lambda>(p, e). e) (\<lambda>(p, e). createdAt p)
             (map (\<lambda>p. (p, engagementScore p)) ?m))"
  have "map (post_id \<circ> item_doc) (popularPosts s viewer followingIds excluded rc)
      = map (post_id \<circ> fst) ?l"
    by (simp add: popularPosts_def comp_def case_prod_beta)
  moreover have "distinct (map (post_id \<circ> fst) (map (\<lambda>p. (p, engagementScore p)) ?m))"
    using assms by (simp add: comp_def distinct_map_filter)
  then have "distinct (map (post_id \<circ> fst) ?l)"
    by (intro distinct_map_take) simp
  ultimately show ?thesis by simp
qed

lemma postsLikedByFollowing_not_excluded:
  "x \<in> set (postsLikedByFollowing s viewer followingIds excluded rc)
     \<Longrightarrow> post_id (item_doc x) \<notin> set excluded"
  by (auto dest!: postsLikedByFollowing_mem)

lemma popularPosts_not_excluded:
  "x \<in> set (popularPosts s viewer followingIds excluded rc)
     \<Longrightarrow> post_id (item_doc x) \<notin> set excluded"
  by (auto dest!: popularPosts_mem)

lemma recommendedPosts_ids_distinct:
  assumes "distinct (map post_id (Posts s))"
  shows "distinct (map (post_id \<circ> item_doc) (recommendedPosts s viewer followingIds fps rc))"
  unfolding recommendedPosts_def Let_def
  using postsLikedByFollowing_ids_distinct[OF assms] popularPosts_ids_distinct[OF assms]
  by (auto simp: image_iff dest!: popularPosts_not_excluded) metis

lemma recommendedPosts_not_excluded:
  "x \<in> set (recommendedPosts s viewer followingIds fps rc)
     \<Longrightarrow> post_id (item_doc x) \<notin> post_id ` set fps"
  unfolding recommendedPosts_def Let_def
  by (auto split: if_splits dest!: popularPosts_not_excluded postsLikedByFollowing_not_excluded)

lemma candidates_ids_distinct:
  assumes "distinct (map post_id (Posts s))"
  shows "distinct (map (post_id \<circ> item_doc) (candidates s viewer followingIds limit))"
  unfolding candidates_def Let_def
  using followingPosts_ids_distinct[OF assms] recommendedPosts_ids_distinct[OF assms]
  by (auto simp: comp_def image_iff dest!: recommendedPosts_not_excluded) metis

text \<open>
  C3. No post identity occurs twice in a page of the personalized feed, and none occurs
  twice among the candidates assembled from the three retrieval stages: the co-engagement
  stage excludes the identities of the followed-author posts already fetched, and the
  popularity stage excludes those and the co-engagement results.
\<close>

theorem personalized_page_no_duplicates:
  "distinct (map post_id (Posts s)) \<longrightarrow>
     distinct (map (post_id \<circ> item_doc) (candidates s viewer followingIds limit))
     \<and> (x \<in> set (postsLikedByFollowing s viewer followingIds excluded n)
          \<longrightarrow> post_id (item_doc x) \<notin> set excluded)
     \<and> (y \<in> set (popularPosts s viewer followingIds excluded n)
          \<longrightarrow> post_id (item_doc y) \<notin> set excluded)
     \<and> (getPersonalizedFeed s viewer pageQ limitQ = Inr r
          \<longrightarrow> distinct (map (post_id \<circ> item_doc) (posts r)))"
proof (intro impI conjI)
  assume d: "distinct (map post_id (Posts s))"
  show "distinct (map (post_id \<circ> item_doc) (candidates s viewer followingIds limit))"
    using d by (rule candidates_ids_distinct)
  {
    assume "getPersonalizedFeed s viewer pageQ limitQ = Inr r"
    then obtain user :: user_doc where
      "posts r = js_slice (allPosts s viewer (populate_refs s (following user)) (js_or limitQ 10))
                     ((js_or pageQ 1 - 1) * js_or limitQ 10)
                     ((js_or pageQ 1 - 1) * js_or limitQ 10 + js_or limitQ 10)"
      by (rule getPersonalizedFeed_Inr)
    then show "distinct (map (post_id \<circ> item_doc) (posts r))"
      using candidates_ids_distinct[OF d]
      by (simp add: allPosts_def distinct_map_js_slice)
  }
qed (auto dest: postsLikedByFollowing_not_excluded popularPosts_not_excluded)


lemma demo_ids_distinct: "distinct (map post_id (Posts demo_db))"
  by (simp add: demo_db_def demo_post_def)

lemma demo_postsLikedByFollowing:
  "postsLikedByFollowing demo_db 5 [2] [11, 10] 3
     = [LikedByFollowing (demo_post 12 3 [2] 1 True 1500) 1]"
  by (simp add: postsLikedByFollowing_def sort_desc2_def likedByFollowing_def populate_post_def
      populate_refs_def findById_def demo_db_def demo_post_def)

lemma demo_popularPosts:
  "popularPosts demo_db 5 [2] [11, 10, 12] 2 = [Popular (demo_post 14 4 [] 3 True 50) 6]"
  by (simp add: popularPosts_def sort_desc2_def engagementScore_def populate_post_def
      populate_refs_def findById_def demo_db_def demo_post_def)

theorem personalized_page_no_duplicates_witness:
  "distinct (map post_id (Posts demo_db))
   \<and> map (post_id \<circ> item_doc) (candidates demo_db 5 [2] 10) = [11, 10, 12, 14]
   \<and> distinct (map (post_id \<circ> item_doc) (candidates demo_db 5 [2] 10))
   \<and> LikedByFollowing (demo_post 12 3 [2] 1 True 1500) 1
        \<in> set (postsLikedByFollowing demo_db 5 [2] [11, 10] 3)
   \<and> post_id (item_doc (LikedByFollowing (demo_post 12 3 [2] 1 True 1500) 1)) \<notin> set [11, 10]
   \<and> Popular (demo_post 14 4 [] 3 True 50) 6 \<in> set (popularPosts demo_db 5 [2] [11, 10, 12] 2)
   \<and> post_id (item_doc (Popular (demo_post 14 4 [] 3 True 50) 6)) \<notin> set [11, 10, 12]
   \<and> getPersonalizedFeed demo_db 5 (Some 1) (Some 10) = Inr demo_page
   \<and> distinct (map (post_id \<circ> item_doc) (posts demo_page))"
proof -
  have a: "LikedByFollowing (demo_post 12 3 [2] 1 True 1500) 1
        \<in> set (postsLikedByFollowing demo_db 5 [2] [11, 10] 3)"
    by (simp add: demo_postsLikedByFollowing)
  have b: "Popular (demo_post 14 4 [] 3 True 50) 6 \<in> set (popularPosts demo_db 5 [2] [11, 10, 12] 2)"
    by (simp add: demo_popularPosts)
  from personalized_page_no_duplicates[of demo_db 5 "[2]" 10
      "LikedByFollowing (demo_post 12 3 [2] 1 True 1500) 1" "[11, 10]" 3
      "Popular (demo_post 14 4 [] 3 True 50) 6" "Some 1" "Some 10" demo_page]
    demo_ids_distinct demo_candidates a demo_page_1
  have 1: "distinct (map (post_id \<circ> item_doc) (candidates demo_db 5 [2] 10))"
    and 2: "post_id (item_doc (LikedByFollowing (demo_post 12 3 [2] 1 True 1500) 1)) \<notin> set [11, 10]"
    and 3: "distinct (map (post_id \<circ> item_doc) (posts demo_page))"
    by blast+
  from personalized_page_no_duplicates[of demo_db 5 "[2]" 10
      "LikedByFollowing (demo_post 12 3 [2] 1 True 1500) 1" "[11, 10, 12]" 2
      "Popular (demo_post 14 4 [] 3 True 50) 6" "Some 1" "Some 10" demo_page]
    demo_ids_distinct b
  have 4: "post_id (item_doc (Popular (demo_post 14 4 [] 3 True 50) 6)) \<notin> set [11, 10, 12]"
    by blast
  from 1 2 3 4 a b demo_ids_distinct demo_candidates demo_page_1 show ?thesis by blast
qed

subsection \<open>The co-engagement stage\<close>

lemma likedByFollowing_card:
  "likedByFollowing s followingIds q
     = card (set (populate_refs s (likes q)) \<inter> set followingIds)"
proof -
  have e: "(\<exists>y. findById s i = Some y) = (\<exists>u \<in> set (Users s). user_id u = i)" for i
    using find_None_iff[of "\<lambda>u. user_id u = i" "Users s"]
    by (cases "findById s i") (auto simp: findById_def)
  have "set (filter (\<lambda>i. i \<in> set followingIds)
          (map user_id (filter (\<lambda>u. user_id u \<in> set (likes q)) (Users s))))
        = set (populate_refs s (likes q)) \<inter> set followingIds"
    by (auto simp: populate_refs_def e)
  then show ?thesis
    by (simp only: likedByFollowing_def length_remdups_card_conv)
qed

lemma postsLikedByFollowing_sorted:
  "sorted_wrt (\<lambda>a b. co_engagement_score b < co_engagement_score a
        \<or> (co_engagement_score b = co_engagement_score a
            \<and> createdAt (item_doc b) \<le> createdAt (item_doc a)))
     (postsLikedByFollowing s viewer followingIds excluded n)"
proof -
  let ?F = "\<lambda>(p :: post, n :: nat). int n" and ?G = "\<lambda>(p :: post, n :: nat). createdAt p"
  have "sorted_wrt (\<lambda>a b. ?F b < ?F a \<or> (?F b = ?F a \<and> ?G b \<le> ?G a))
          (sort_desc2 ?F ?G xs)" for xs
    by (rule sorted_sort_desc2)
  then have "sorted_wrt (\<lambda>a b. ?F b < ?F a \<or> (?F b = ?F a \<and> ?G b \<le> ?G a))
          (take k (sort_desc2 ?F ?G xs))" for xs k
    by (rule sorted_wrt_take)
  then show ?thesis
    unfolding postsLikedByFollowing_def sorted_wrt_map
    by (rule sorted_wrt_mono_rel[rotated]) (auto simp: case_prod_beta)
qed

text \<open>
  C8. The co-engagement stage returns only public posts whose author is neither the
  viewer nor a followed user and that at least one followed user liked; the score of an
  item is the number of followed users who liked it; the items are in descending order of
  that score, ties in descending order of creation time; at most the requested number of
  items is returned.
\<close>

theorem co_engagement_retriever:
  "(x \<in> set (postsLikedByFollowing s viewer followingIds excluded n) \<longrightarrow>
      isPublic (item_doc x) \<and> author (item_doc x) \<noteq> viewer
      \<and> author (item_doc x) \<notin> set followingIds
      \<and> co_engagement_score x = card (set (likes (item_doc x)) \<inter> set followingIds)
      \<and> 0 < co_engagement_score x)
   \<and> sorted_wrt (\<lambda>a b. co_engagement_score b < co_engagement_score a
        \<or> (co_engagement_score b = co_engagement_score a
            \<and> createdAt (item_doc b) \<le> createdAt (item_doc a)))
       (postsLikedByFollowing s viewer followingIds excluded n)
   \<and> length (postsLikedByFollowing s viewer followingIds excluded n) \<le> nat n"
proof (intro conjI impI)
  assume "x \<in> set (postsLikedByFollowing s viewer followingIds excluded n)"
  then obtain q where q: "q \<in> set (Posts s)"
    "x = LikedByFollowing (populate_post s q) (likedByFollowing s followingIds q)"
    "author q \<noteq> viewer" "author q \<notin> set followingIds" "isPublic q"
    "0 < likedByFollowing s followingIds q"
    by (auto dest!: postsLikedByFollowing_mem)
  show "isPublic (item_doc x)" "author (item_doc x) \<noteq> viewer"
    "author (item_doc x) \<notin> set followingIds" "0 < co_engagement_score x"
    using q by simp_all
  show "co_engagement_score x = card (set (likes (item_doc x)) \<inter> set followingIds)"
    using q(2) by (simp add: likedByFollowing_card)
next
  show "length (postsLikedByFollowing s viewer followingIds excluded n) \<le> nat n"
    by (simp add: postsLikedByFollowing_def)
qed (rule postsLikedByFollowing_sorted)

theorem co_engagement_retriever_witness:
  "LikedByFollowing (demo_post 12 3 [2] 1 True 1500) 1
     \<in> set (postsLikedByFollowing demo_db 5 [2] [11, 10] 3)
   \<and> isPublic (demo_post 12 3 [2] 1 True 1500) \<and> author (demo_post 12 3 [2] 1 True 1500) \<noteq> 5
   \<and> author (demo_post 12 3 [2] 1 True 1500) \<notin> set [2]
   \<and> card (set (likes (demo_post 12 3 [2] 1 True 1500)) \<inter> set [2]) = 1"
proof -
  have a: "LikedByFollowing (demo_post 12 3 [2] 1 True 1500) 1
        \<in> set (postsLikedByFollowing demo_db 5 [2] [11, 10] 3)"
    by (simp add: demo_postsLikedByFollowing)
  from co_engagement_retriever[of "LikedByFollowing (demo_post 12 3 [2] 1 True 1500) 1"
      demo_db 5 "[2]" "[11, 10]" 3] a
  show ?thesis by simp
qed

subsection \<open>The trending ranking\<close>

lemma d0_8_value: "d0_8 = 7205759403792794 * 2 powi (- 53)"
  unfolding d0_8_def using round_double_cert[of 7205759403792794 "- 53" "8 / 10"] by simp

lemma dmul_10_d0_8: "dmul 10 d0_8 = 8"
  unfolding dmul_def
  using round_double_cert[of 4503599627370496 "- 49" "10 * d0_8"] by (simp add: d0_8_value)

lemma round_double_nonneg: "0 \<le> x \<Longrightarrow> 0 \<le> round_double x"
  using round_double_mono[of 0 x] by simp

lemma round_double_le_int:
  assumes "x \<le> of_int n" and "\<bar>n\<bar> < 2 ^ 53"
  shows "round_double x \<le> of_int n"
  using round_double_mono[OF assms(1)] round_double_of_int[OF assms(2)] by simp

lemma round_double_ge_int:
  assumes "of_int n \<le> x" and "\<bar>n\<bar> < 2 ^ 53"
  shows "of_int n \<le> round_double x"
  using round_double_mono[OF assms(1)] round_double_of_int[OF assms(2)] by simp

lemma d0_2_bounds: "0 \<le> d0_2" "d0_2 \<le> 1"
proof -
  show "0 \<le> d0_2" unfolding d0_2_def by (rule round_double_nonneg) simp
  have "round_double (2 / 10) \<le> of_int 1" by (rule round_double_le_int) simp_all
  then show "d0_2 \<le> 1" by (simp add: d0_2_def)
qed

lemma round_double_19_2: "round_double (19 / 2) = 19 / 2"
  using round_double_cert[of 5348024557502464 "- 49" "19 / 2"] by simp

lemma dmul_12_d0_8: "19 / 2 \<le> dmul 12 d0_8"
proof -
  have "(19 / 2 :: rat) \<le> 12 * d0_8" by (simp add: d0_8_value)
  then have "round_double (19 / 2) \<le> round_double (12 * d0_8)"
    by (rule round_double_mono)
  then show ?thesis by (simp only: round_double_19_2 dmul_def)
qed

lemma recencyBoost_term_bounds:
  assumes "0 \<le> age" and "age \<le> 2 ^ 53"
  shows "0 \<le> dmul (ddiv (of_int age) 86400000) d0_2"
    and "dmul (ddiv (of_int age) 86400000) d0_2 \<le> 2 ^ 27"
proof -
  let ?y = "ddiv (of_int age) 86400000"
  have a0: "(0::rat) \<le> of_int age" using assms(1) by simp
  have y0: "0 \<le> ?y" unfolding ddiv_def using a0 by (intro round_double_nonneg) simp
  have "(of_int age :: rat) \<le> of_int (2 ^ 53)" using assms(2) by (simp only: of_int_le_iff)
  then have a1: "(of_int age :: rat) \<le> 9007199254740992" by simp
  have "(of_int age :: rat) / 86400000 \<le> of_int 134217728" using a1 by simp
  then have "?y \<le> of_int 134217728" unfolding ddiv_def by (rule round_double_le_int) simp
  then have y1: "?y \<le> 134217728" by simp
  show "0 \<le> dmul ?y d0_2" unfolding dmul_def using y0 d0_2_bounds(1)
    by (intro round_double_nonneg) simp
  have "?y * d0_2 \<le> 134217728 * 1" using y0 y1 d0_2_bounds by (intro mult_mono) simp_all
  then have "?y * d0_2 \<le> of_int 134217728" by simp
  then have "dmul ?y d0_2 \<le> of_int 134217728" unfolding dmul_def
    by (rule round_double_le_int) simp
  then show "dmul ?y d0_2 \<le> 2 ^ 27" by simp
qed

lemma round_double_half_int:
  assumes "0 < k" and "k < 2 ^ 51"
  shows "round_double (of_int k + 1 / 2) = of_int k + 1 / 2"
proof -
  have r: "round_double (of_int (2 * k + 1) * 2 powi (- 1)) = of_int (2 * k + 1) * 2 powi (- 1)"
    using assms by (intro round_double_exact_pos) simp_all
  have e: "of_int (2 * k + 1) * 2 powi (- 1) = (of_int k + 1 / 2 :: rat)"
    by (simp add: power_int_minus add_divide_distrib)
  show ?thesis using r unfolding e .
qed

lemma dadd_gap:
  assumes "0 \<le> x" and "x \<le> 2 ^ 27" and "0 \<le> A" and "A \<le> 8" and "19 / 2 \<le> B"
  shows "dadd A x < dadd B x"
proof -
  define k where "k = \<lfloor>A + x\<rfloor> + 1"
  have k1: "A + x < of_int k" "of_int k \<le> A + x + 1" unfolding k_def by linarith+
  have "(0::rat) < of_int k" using k1(1) assms(1,3) by linarith
  then have kpos: "0 < k" by simp
  have x27: "x \<le> 134217728" using assms(2) by simp
  have "(of_int k :: rat) \<le> of_int 134217737" using k1(2) x27 assms(4) by simp
  then have kub: "k \<le> 134217737" by (simp only: of_int_le_iff)
  have "\<bar>k\<bar> < 2 ^ 53" using kub kpos by simp
  with k1(1) have 1: "dadd A x \<le> of_int k" unfolding dadd_def
    by (intro round_double_le_int) simp_all
  have "k < 2 ^ 51" using kub by simp
  with kpos have 2: "round_double (of_int k + 1 / 2) = of_int k + 1 / 2"
    by (rule round_double_half_int)
  have "of_int k + 1 / 2 \<le> B + x" using k1(2) assms(4,5) by linarith
  then have "round_double (of_int k + 1 / 2) \<le> dadd B x"
    unfolding dadd_def by (rule round_double_mono)
  with 1 2 show ?thesis by linarith
qed

lemma trending_scenario_scores:
  assumes "createdAt a = createdAt b" and "createdAt a \<le> now" and "now - createdAt a \<le> 2 ^ 53"
    and "length (likes a) = 10" and "length (comments a) = 0"
    and "length (likes b) = 2" and "length (comments b) = 5"
  shows "finalScore (trending_fields now a) < finalScore (trending_fields now b)"
proof -
  let ?x = "dmul (ddiv (of_int (now - createdAt a)) 86400000) d0_2"
  have age: "0 \<le> now - createdAt a" using assms(2) by simp
  have x: "0 \<le> ?x" "?x \<le> 2 ^ 27"
    using recencyBoost_term_bounds[OF age assms(3)] by simp_all
  have fa: "finalScore (trending_fields now a) = dadd (dmul 10 d0_8) ?x"
    using assms(4,5) by (simp add: trending_fields_def engagementScore_def Let_def)
  have fb: "finalScore (trending_fields now b) = dadd (dmul 12 d0_8) ?x"
    using assms(1,6,7) by (simp add: trending_fields_def engagementScore_def Let_def)
  have "dadd 8 ?x < dadd (dmul 12 d0_8) ?x"
    using x by (intro dadd_gap dmul_12_d0_8) simp_all
  then show ?thesis by (simp only: fa fb dmul_10_d0_8)
qed

lemma trending_ranked_sorted:
  "sorted_wrt (\<lambda>a b. finalScore b \<le> finalScore a) (trending_ranked s now)"
  unfolding trending_ranked_def by (rule sorted_sort_desc)

lemma trending_order:
  assumes "finalScore x < finalScore y"
    and "i < length (trending_ranked s now)" and "j < length (trending_ranked s now)"
    and "trending_ranked s now ! i = x" and "trending_ranked s now ! j = y"
  shows "j < i"
proof (rule ccontr)
  assume "\<not> j < i"
  then consider "i = j" | "i < j" by linarith
  then show False
  proof cases
    case 1
    with assms(1,4,5) show False by simp
  next
    case 2
    from trending_ranked_sorted[of s now] 2 assms(3)
    have "finalScore (trending_ranked s now ! j) \<le> finalScore (trending_ranked s now ! i)"
      by (simp add: sorted_wrt_iff_nth_less)
    with assms(1,4,5) show False by simp
  qed
qed

text \<open>
  C7. The trending feed gives every public post the score
  \<open>0.8 \<times> (likes + 2 \<times> comments) + 0.2 \<times> ageInDays\<close>, orders all public posts by that
  score in descending order and returns the \<open>limit\<close> entries after the first \<open>skip\<close>.
  For two public posts created at the same time (not after the request, and at most
  \<open>2\<^sup>5\<^sup>3\<close> ms before it), the one with 2 likes and 5 comments has the strictly higher score
  and stands before the one with 10 likes and no comment.
\<close>

theorem trending_feed_ranking:
  "finalScore (trending_fields now p) =
      dadd (dmul (of_int (int (length (likes p)) + int (length (comments p)) * 2)) d0_8)
           (dmul (ddiv (of_int (now - createdAt p)) 86400000) d0_2)
   \<and> mset (trending_ranked s now) = mset (map (trending_fields now) (filter isPublic (Posts s)))
   \<and> sorted_wrt (\<lambda>a b. finalScore b \<le> finalScore a) (trending_ranked s now)
   \<and> (getTrendingFeed s now pageQ limitQ = Inr r \<longrightarrow>
        posts r = map (\<lambda>d. d\<lparr>trending_post := populate_post s (trending_post d)\<rparr>)
          (take (nat (js_or limitQ 10))
            (drop (nat ((js_or pageQ 1 - 1) * js_or limitQ 10)) (trending_ranked s now))))
   \<and> (a \<in> set (Posts s) \<and> b \<in> set (Posts s) \<and> isPublic a \<and> isPublic b
        \<and> createdAt a = createdAt b \<and> createdAt a \<le> now \<and> now - createdAt a \<le> 2 ^ 53
        \<and> length (likes a) = 10 \<and> length (comments a) = 0
        \<and> length (likes b) = 2 \<and> length (comments b) = 5 \<longrightarrow>
        finalScore (trending_fields now a) < finalScore (trending_fields now b)
        \<and> trending_fields now a \<in> set (trending_ranked s now)
        \<and> trending_fields now b \<in> set (trending_ranked s now)
        \<and> (i < length (trending_ranked s now) \<and> j < length (trending_ranked s now)
             \<and> trending_ranked s now ! i = trending_fields now a
             \<and> trending_ranked s now ! j = trending_fields now b \<longrightarrow> j < i))"
proof (intro conjI impI)
  show "finalScore (trending_fields now p) =
      dadd (dmul (of_int (int (length (likes p)) + int (length (comments p)) * 2)) d0_8)
           (dmul (ddiv (of_int (now - createdAt p)) 86400000) d0_2)"
    by (simp add: trending_fields_def engagementScore_def Let_def)
  show "mset (trending_ranked s now) = mset (map (trending_fields now) (filter isPublic (Posts s)))"
    by (simp add: trending_ranked_def)
  show "sorted_wrt (\<lambda>a b. finalScore b \<le> finalScore a) (trending_ranked s now)"
    by (rule trending_ranked_sorted)
next
  assume "getTrendingFeed s now pageQ limitQ = Inr r"
  from getTrendingFeed_Inr[OF this]
  show "posts r = map (\<lambda>d. d\<lparr>trending_post := populate_post s (trending_post d)\<rparr>)
          (take (nat (js_or limitQ 10))
            (drop (nat ((js_or pageQ 1 - 1) * js_or limitQ 10)) (trending_ranked s now)))"
    by simp
next
  assume h: "a \<in> set (Posts s) \<and> b \<in> set (Posts s) \<and> isPublic a \<and> isPublic b
        \<and> createdAt a = createdAt b \<and> createdAt a \<le> now \<and> now - createdAt a \<le> 2 ^ 53
        \<and> length (likes a) = 10 \<and> length (comments a) = 0
        \<and> length (likes b) = 2 \<and> length (comments b) = 5"
  then show lt: "finalScore (trending_fields now a) < finalScore (trending_fields now b)"
    by (intro trending_scenario_scores) simp_all
  show "trending_fields now a \<in> set (trending_ranked s now)"
    "trending_fields now b \<in> set (trending_ranked s now)"
    using h by (simp_all add: trending_ranked_def)
  assume "i < length (trending_ranked s now) \<and> j < length (trending_ranked s now)
             \<and> trending_ranked s now ! i = trending_fields now a
             \<and> trending_ranked s now ! j = trending_fields now b"
  then show "j < i" using trending_order[OF lt] by blast
qed

lemma trend_scores:
  "finalScore (trending_fields 1700086400000 trend_a)
     < finalScore (trending_fields 1700086400000 trend_b)"
  by (rule trending_scenario_scores) (simp_all add: trend_a_def trend_b_def)

lemma trend_ranked:
  "trending_ranked trend_db 1700086400000
     = [trending_fields 1700086400000 trend_b, trending_fields 1700086400000 trend_a]"
proof -
  have p: "filter isPublic (Posts trend_db) = [trend_a, trend_b]"
    by (simp add: trend_db_def trend_a_def trend_b_def)
  show ?thesis unfolding trending_ranked_def p sort_desc_def
    using trend_scores by simp
qed

theorem trending_feed_ranking_witness:
  "trend_a \<in> set (Posts trend_db) \<and> trend_b \<in> set (Posts trend_db)
   \<and> isPublic trend_a \<and> isPublic trend_b \<and> createdAt trend_a = createdAt trend_b
   \<and> createdAt trend_a \<le> 1700086400000 \<and> 1700086400000 - createdAt trend_a \<le> 2 ^ 53
   \<and> length (likes trend_a) = 10 \<and> length (comments trend_a) = 0
   \<and> length (likes trend_b) = 2 \<and> length (comments trend_b) = 5
   \<and> finalScore (trending_fields 1700086400000 trend_a)
        < finalScore (trending_fields 1700086400000 trend_b)
   \<and> trending_ranked trend_db 1700086400000
        = [trending_fields 1700086400000 trend_b, trending_fields 1700086400000 trend_a]
   \<and> (0::nat) < 1
   \<and> \<not> isl (getTrendingFeed trend_db 1700086400000 (Some 1) (Some 10))
   \<and> map (post_id \<circ> trending_post)
        (posts (projr (getTrendingFeed trend_db 1700086400000 (Some 1) (Some 10)))) = [32, 31]"
proof -
  have h: "trend_a \<in> set (Posts trend_db) \<and> trend_b \<in> set (Posts trend_db)
   \<and> isPublic trend_a \<and> isPublic trend_b \<and> createdAt trend_a = createdAt trend_b
   \<and> createdAt trend_a \<le> 1700086400000 \<and> 1700086400000 - createdAt trend_a \<le> 2 ^ 53
   \<and> length (likes trend_a) = 10 \<and> length (comments trend_a) = 0
   \<and> length (likes trend_b) = 2 \<and> length (comments trend_b) = 5"
    by (simp add: trend_db_def trend_a_def trend_b_def)
  have ok: "\<not> isl (getTrendingFeed trend_db 1700086400000 (Some 1) (Some 10))"
    by (simp add: getTrendingFeed_isl js_or_def aggregate_accepts_def)
  then have e: "getTrendingFeed trend_db 1700086400000 (Some 1) (Some 10)
                  = Inr (projr (getTrendingFeed trend_db 1700086400000 (Some 1) (Some 10)))"
    by simp
  have nth: "1 < length (trending_ranked trend_db 1700086400000)
     \<and> 0 < length (trending_ranked trend_db 1700086400000)
     \<and> trending_ranked trend_db 1700086400000 ! 1 = trending_fields 1700086400000 trend_a
     \<and> trending_ranked trend_db 1700086400000 ! 0 = trending_fields 1700086400000 trend_b"
    by (simp add: trend_ranked)
  from trending_feed_ranking[of 1700086400000 trend_a trend_db "Some 1" "Some 10"
      "projr (getTrendingFeed trend_db 1700086400000 (Some 1) (Some 10))" trend_a trend_b 1 0]
    h e nth
  have c: "finalScore (trending_fields 1700086400000 trend_a)
        < finalScore (trending_fields 1700086400000 trend_b)"
    and d: "(0::nat) < 1"
    and p: "posts (projr (getTrendingFeed trend_db 1700086400000 (Some 1) (Some 10)))
       = map (\<lambda>d. d\<lparr>trending_post := populate_post trend_db (trending_post d)\<rparr>)
          (take (nat (js_or (Some 10) 10))
            (drop (nat ((js_or (Some 1) 1 - 1) * js_or (Some 10) 10))
              (trending_ranked trend_db 1700086400000)))"
    by blast+
  have ids: "map (post_id \<circ> trending_post)
        (posts (projr (getTrendingFeed trend_db 1700086400000 (Some 1) (Some 10)))) = [32, 31]"
    unfolding p by (simp add: trend_ranked js_or_def trend_a_def trend_b_def)
  from h c d ok ids trend_ranked show ?thesis by blast
qed

subsection \<open>Pagination of the personalized feed\<close>

lemma of_int_ge_one:
  fixes n :: int
  assumes "0 < n"
  shows "(1::rat) \<le> of_int n"
proof -
  have "1 \<le> n" using assms by simp
  then have "(of_int 1 :: rat) \<le> of_int n" by (simp only: of_int_le_iff)
  then show ?thesis by simp
qed

lemma inverse_ulp_int:
  fixes e :: int
  assumes "e < 53"
  shows "1 / ((2::rat) powi (e - 52)) = of_int (2 ^ nat (52 - e))"
proof -
  have "1 / ((2::rat) powi (e - 52)) = 2 powi (- (e - 52))"
    by (simp only: power_int_minus_divide)
  also have "- (e - 52) = int (nat (52 - e))" using assms by simp
  also have "(2::rat) powi (int (nat (52 - e))) = 2 ^ nat (52 - e)" by (rule power_int_of_nat)
  also have "\<dots> = of_int (2 ^ nat (52 - e))" by simp
  finally show ?thesis .
qed

lemma half_ulp_small:
  fixes u l :: rat
  assumes "0 < l" and "u * l < 2"
  shows "u / 2 < 1 / l"
proof -
  have "u < 2 / l" using assms by (simp add: pos_less_divide_eq)
  then have "u / 2 < (2 / l) / 2" by (simp only: divide_strict_right_mono zero_less_numeral)
  then show ?thesis by simp
qed

lemma round_double_gt_int:
  assumes "0 < n" and "0 < L" and "of_int n + 1 / of_int L \<le> x" and "x * of_int L < 2 ^ 53"
  shows "of_int n < round_double x"
proof -
  have Lr: "(0::rat) < of_int L" using assms(2) by simp
  have L1: "(1::rat) \<le> of_int L" using assms(2) by (rule of_int_ge_one)
  have nr: "(1::rat) \<le> of_int n" using assms(1) by (rule of_int_ge_one)
  have "(0::rat) < 1 / of_int L" using Lr by simp
  then have xn: "of_int n < x" using assms(3) by linarith
  have x: "0 < x" using xn nr by linarith
  define e where "e = ilog2 x"
  define u where "u = (2::rat) powi (e - 52)"
  have u: "0 < u" unfolding u_def by (rule pow2_pos)
  have lo: "2 powi e \<le> x" unfolding e_def by (rule ilog2_bounds(1)[OF x])
  have "x * 1 \<le> x * of_int L" using L1 x by (intro mult_left_mono) simp_all
  then have xL: "x \<le> x * of_int L" by simp
  have "(2::rat) powi e < 2 ^ 53" using lo xL assms(4) by linarith
  also have "(2::rat) ^ 53 = 2 powi 53" by simp
  finally have e53: "e < 53" by (simp only: pow2_less_iff)
  have iu: "1 / u = of_int (2 ^ nat (52 - e))" unfolding u_def using e53 by (rule inverse_ulp_int)
  have "of_int n / u = of_int n * (1 / u)" by simp
  also have "\<dots> = of_int (n * 2 ^ nat (52 - e))" by (simp only: iu of_int_mult)
  finally have nu: "of_int n / u = of_int (n * 2 ^ nat (52 - e))" .
  have ue: "u * 2 ^ 52 = 2 powi e" unfolding u_def by (simp add: power_int_diff)
  have "u * 2 ^ 52 * of_int L \<le> x * of_int L"
    unfolding ue using lo Lr by (intro mult_right_mono) simp_all
  then have "u * of_int L * 2 ^ 52 < 2 ^ 53" using assms(4) by (simp add: mult.commute mult.left_commute)
  then have "u * of_int L * 2 ^ 52 < 2 * 2 ^ 52" by simp
  then have "u * of_int L < 2" by (simp only: mult_less_cancel_right_pos zero_less_power zero_less_numeral)
  with Lr have "u / 2 < 1 / of_int L" by (rule half_ulp_small)
  then have "of_int n + u / 2 < x" using assms(3) by linarith
  have "of_int n / u + 1 / 2 = (of_int n + u / 2) / u" using u by (simp add: add_divide_distrib)
  also have "\<dots> < x / u" using \<open>of_int n + u / 2 < x\<close> u by (simp only: divide_strict_right_mono)
  finally have "of_int n / u < x / u - 1 / 2" by linarith
  also have "\<dots> \<le> of_int (round_half_even (x / u))" by (rule round_half_even_near(2))
  finally have "of_int n / u * u < of_int (round_half_even (x / u)) * u"
    using u by (simp only: mult_less_cancel_right_pos)
  then have "of_int n < of_int (round_half_even (x / u)) * u" using u by simp
  then show ?thesis unfolding round_double_pos[OF x] e_def[symmetric] u_def[symmetric] .
qed

lemma totalPagesOf_exact:
  assumes "0 \<le> t" and "t < 2 ^ 53" and "0 < L"
  shows "totalPagesOf t L = \<lceil>(of_int t :: rat) / of_int L\<rceil>"
proof -
  let ?x = "(of_int t :: rat) / of_int L"
  define c where "c = \<lceil>?x\<rceil>"
  have Lr: "(0::rat) < of_int L" using assms(3) by simp
  have L1: "(1::rat) \<le> of_int L" using assms(3) by (rule of_int_ge_one)
  have tr: "(0::rat) \<le> of_int t" using assms(1) by simp
  have x0: "0 \<le> ?x" using tr Lr by simp
  have "?x \<le> of_int t / 1" using tr L1 by (intro divide_left_mono) simp_all
  then have xt: "?x \<le> of_int t" by simp
  have c0: "0 \<le> c" unfolding c_def using x0 by (simp add: ceiling_le_iff[symmetric] le_ceiling_iff)
  have ct: "c \<le> t" unfolding c_def using xt by (simp add: ceiling_le_iff)
  have xc: "?x \<le> of_int c" unfolding c_def by (rule le_of_int_ceiling)
  have cx: "of_int c - 1 < ?x" unfolding c_def by linarith
  have "\<bar>c\<bar> < 2 ^ 53" using c0 ct assms(2) by simp
  with xc have up: "round_double ?x \<le> of_int c" by (rule round_double_le_int)
  have low: "of_int (c - 1) < round_double ?x"
  proof -
    consider "c = 0" | "c = 1" | "1 < c" using c0 by linarith
    then show ?thesis
    proof cases
      case 1
      have "(0::rat) \<le> round_double ?x" using x0 by (rule round_double_nonneg)
      then show ?thesis using 1 by simp
    next
      case 2
      then have "0 < ?x" using cx by simp
      then have "0 < round_double ?x" by (rule round_double_pos_pos)
      then show ?thesis using 2 by simp
    next
      case 3
      then have n: "0 < c - 1" by simp
      have "of_int (c - 1) * of_int L < (of_int t :: rat)"
        using cx Lr by (simp add: pos_less_divide_eq)
      then have "(of_int ((c - 1) * L) :: rat) < of_int t" by simp
      then have "(c - 1) * L < t" by (simp only: of_int_less_iff)
      then have "(c - 1) * L + 1 \<le> t" by simp
      then have "(of_int ((c - 1) * L + 1) :: rat) \<le> of_int t" by (simp only: of_int_le_iff)
      then have "of_int (c - 1) * of_int L + 1 \<le> (of_int t :: rat)" by simp
      then have "(of_int (c - 1) * of_int L + 1) / of_int L \<le> ?x"
        using Lr by (simp only: divide_right_mono less_imp_le)
      moreover have "(of_int (c - 1) * of_int L + 1) / of_int L = of_int (c - 1) + 1 / (of_int L :: rat)"
        using Lr by (simp add: add_divide_distrib)
      ultimately have a: "of_int (c - 1) + 1 / of_int L \<le> ?x" by simp
      have "?x * of_int L = of_int t" using Lr by simp
      also have "\<dots> < of_int (2 ^ 53)" using assms(2) by (simp only: of_int_less_iff)
      finally have b: "?x * of_int L < 2 ^ 53" by simp
      show ?thesis using n assms(3) a b by (rule round_double_gt_int)
    qed
  qed
  have "\<lceil>round_double ?x\<rceil> = c"
    using up low by (intro ceiling_unique) simp_all
  then show ?thesis by (simp add: totalPagesOf_def ddiv_def c_def)
qed

lemma hasMore_iff:
  assumes "0 \<le> totalPosts r" and "totalPosts r < 2 ^ 53" and "0 < L"
    and "totalPages r = totalPagesOf (totalPosts r) L"
  shows "hasMore P r \<longleftrightarrow> P * L < totalPosts r"
proof -
  have Lr: "(0::rat) < of_int L" using assms(3) by simp
  have "hasMore P r \<longleftrightarrow> of_int P < (of_int (totalPosts r) :: rat) / of_int L"
    by (simp add: hasMore_def assms(4) totalPagesOf_exact[OF assms(1,2,3)] less_ceiling_iff)
  also have "\<dots> \<longleftrightarrow> (of_int (P * L) :: rat) < of_int (totalPosts r)"
    using Lr by (simp add: pos_less_divide_eq)
  also have "\<dots> \<longleftrightarrow> P * L < totalPosts r" by (simp only: of_int_less_iff)
  finally show ?thesis .
qed

lemma js_slice_nonneg:
  assumes "0 \<le> a" and "a \<le> b"
  shows "js_slice xs a b = drop (nat a) (take (nat b) xs)"
proof -
  have "js_slice xs a b
      = take (nat (min b (int (length xs)) - min a (int (length xs)))) (drop (nat (min a (int (length xs)))) xs)"
    using assms by (simp add: js_slice_def Let_def)
  also have "\<dots> = drop (nat a) (take (nat b) xs)"
  proof (cases "a \<le> int (length xs)")
    case True
    then have m: "min a (int (length xs)) = a" by simp
    show ?thesis
    proof (cases "b \<le> int (length xs)")
      case True
      then show ?thesis using assms m by (simp add: drop_take nat_diff_distrib)
    next
      case False
      then show ?thesis using assms m True
        by (simp add: drop_take nat_diff_distrib min_def)
    qed
  next
    case False
    then show ?thesis using assms by (simp add: min_def)
  qed
  finally show ?thesis .
qed

lemma pages_disjoint:
  assumes "distinct (map f xs)" and "0 \<le> a" and "a \<le> b" and "b \<le> c"
  shows "set (map f (js_slice xs a b)) \<inter> set (map f (js_slice xs b c)) = {}"
proof -
  have 1: "set (map f (js_slice xs a b)) \<subseteq> set (take (nat b) (map f xs))"
    using assms(2,3) by (simp add: js_slice_nonneg drop_map[symmetric] take_map[symmetric] set_drop_subset del: drop_map take_map)
  have "0 \<le> b" using assms(2,3) by simp
  then have 2: "set (map f (js_slice xs b c)) \<subseteq> set (drop (nat b) (map f xs))"
    using assms(4) by (simp add: js_slice_nonneg drop_take take_map[symmetric] drop_map[symmetric] set_take_subset del: drop_map take_map)
  from set_take_disj_set_drop_if_distinct[OF assms(1), of "nat b" "nat b"] 1 2
  show ?thesis by blast
qed

lemma js_slice_empty_iff:
  assumes "0 \<le> a" and "a < b"
  shows "js_slice xs a b = [] \<longleftrightarrow> int (length xs) \<le> a"
  using assms by (auto simp: js_slice_nonneg)

lemma candidates_ids_subset:
  "set (map (post_id \<circ> item_doc) (candidates s viewer followingIds limit))
     \<subseteq> set (map post_id (Posts s))"
proof
  fix i assume "i \<in> set (map (post_id \<circ> item_doc) (candidates s viewer followingIds limit))"
  then obtain x where x: "x \<in> set (candidates s viewer followingIds limit)"
    and i: "i = post_id (item_doc x)" by auto
  from x have "\<exists>q \<in> set (Posts s). populate_post s q = item_doc x"
    unfolding candidates_def Let_def
    by (auto dest!: followingPosts_mem recommendedPosts_mem)
  then obtain q where "q \<in> set (Posts s)" "populate_post s q = item_doc x" by blast
  then have "post_id q = i" using i by (metis populate_post_fields(1))
  with \<open>q \<in> set (Posts s)\<close> show "i \<in> set (map post_id (Posts s))" by auto
qed

lemma candidates_length_le:
  assumes "distinct (map post_id (Posts s))"
  shows "length (candidates s viewer followingIds limit) \<le> length (Posts s)"
proof -
  let ?ids = "map (post_id \<circ> item_doc) (candidates s viewer followingIds limit)"
  have "length (candidates s viewer followingIds limit) = length ?ids" by simp
  also have "\<dots> = card (set ?ids)"
    using candidates_ids_distinct[OF assms] by (simp only: distinct_card)
  also have "\<dots> \<le> card (set (map post_id (Posts s)))"
    by (intro card_mono candidates_ids_subset) simp
  also have "\<dots> \<le> length (map post_id (Posts s))" by (rule card_length)
  finally show ?thesis by simp
qed

lemma js_or_Some: "n \<noteq> 0 \<Longrightarrow> js_or (Some n) d = n"
  by (simp add: js_or_def)

text \<open>
  C4. For a page number \<open>P \<ge> 1\<close> and a page size \<open>L \<ge> 1\<close> over the same store (with unique
  post identities, fewer than \<open>2\<^sup>5\<^sup>3\<close> posts): the Home page's \<open>hasMore\<close>
  (\<open>page < totalPages\<close>) holds exactly when the number of assembled candidates exceeds
  \<open>P \<times> L\<close>; pages \<open>P\<close> and \<open>P + 1\<close> share no post; and \<open>hasMore\<close> holds exactly when
  page \<open>P + 1\<close> is not empty, so it is false at the last non-empty page and true before it.
\<close>

theorem personalized_pagination:
  "distinct (map post_id (Posts s)) \<and> length (Posts s) < 2 ^ 53 \<and> 1 \<le> P \<and> 1 \<le> L
   \<and> getPersonalizedFeed s viewer (Some P) (Some L) = Inr r
   \<and> getPersonalizedFeed s viewer (Some (P + 1)) (Some L) = Inr r' \<longrightarrow>
     (hasMore P r \<longleftrightarrow> P * L < totalPosts r)
   \<and> (\<exists>user. findById s viewer = Some user
        \<and> totalPosts r
            = int (length (candidates s viewer (populate_refs s (following user)) L)))
   \<and> set (map (post_id \<circ> item_doc) (posts r)) \<inter> set (map (post_id \<circ> item_doc) (posts r')) = {}
   \<and> (hasMore P r \<longleftrightarrow> posts r' \<noteq> [])"
proof (intro impI)
  assume h: "distinct (map post_id (Posts s)) \<and> length (Posts s) < 2 ^ 53 \<and> 1 \<le> P \<and> 1 \<le> L
   \<and> getPersonalizedFeed s viewer (Some P) (Some L) = Inr r
   \<and> getPersonalizedFeed s viewer (Some (P + 1)) (Some L) = Inr r'"
  then have d: "distinct (map post_id (Posts s))" and n: "length (Posts s) < 2 ^ 53"
    and P: "1 \<le> P" and L: "1 \<le> L"
    and r: "getPersonalizedFeed s viewer (Some P) (Some L) = Inr r"
    and r': "getPersonalizedFeed s viewer (Some (P + 1)) (Some L) = Inr r'" by simp_all
  have jP: "js_or (Some P) 1 = P" "js_or (Some (P + 1)) 1 = P + 1" "js_or (Some L) 10 = L"
    using P L by (simp_all add: js_or_Some)
  from r obtain user :: user_doc where u: "findById s viewer = Some user"
    and pr: "posts r = js_slice (allPosts s viewer (populate_refs s (following user)) L)
                     ((P - 1) * L) ((P - 1) * L + L)"
    and tr: "totalPosts r = int (length (allPosts s viewer (populate_refs s (following user)) L))"
    and tp: "totalPages r = totalPagesOf (totalPosts r) L"
    by (rule getPersonalizedFeed_Inr) (simp add: jP)
  from r' u have pr': "posts r' = js_slice (allPosts s viewer (populate_refs s (following user)) L)
                     (P * L) (P * L + L)"
    by (auto simp: getPersonalizedFeed_found[OF u] jP)
  let ?all = "allPosts s viewer (populate_refs s (following user)) L"
  let ?c = "candidates s viewer (populate_refs s (following user)) L"
  have len: "length ?all = length ?c" by (simp add: allPosts_def)
  have "length ?c \<le> length (Posts s)" using d by (rule candidates_length_le)
  then have "length ?all < 2 ^ 53" using n len by linarith
  then have "int (length ?all) < int (2 ^ 53)" by (simp only: of_nat_less_iff)
  then have t53: "totalPosts r < 2 ^ 53" by (simp add: tr)
  have t0: "0 \<le> totalPosts r" by (simp add: tr)
  have L0: "0 < L" using L by simp
  have hm: "hasMore P r \<longleftrightarrow> P * L < totalPosts r"
    using t0 t53 L0 tp by (rule hasMore_iff)
  have e: "(P - 1) * L + L = P * L" by (simp add: algebra_simps)
  have b0: "0 \<le> (P - 1) * L" using P L by simp
  have b1: "(P - 1) * L \<le> P * L" using L unfolding e[symmetric] by simp
  have b2: "P * L \<le> P * L + L" using L by simp
  have dall: "distinct (map (post_id \<circ> item_doc) ?all)"
    using candidates_ids_distinct[OF d] by (simp add: allPosts_def)
  have dis: "set (map (post_id \<circ> item_doc) (posts r)) \<inter> set (map (post_id \<circ> item_doc) (posts r')) = {}"
    unfolding pr pr' e using dall b0 b1 b2 by (rule pages_disjoint)
  have pl0: "0 \<le> P * L" using P L by simp
  have pl1: "P * L < P * L + L" using L by simp
  have "posts r' = [] \<longleftrightarrow> int (length ?all) \<le> P * L"
    unfolding pr' using pl0 pl1 by (rule js_slice_empty_iff)
  then have ne: "hasMore P r \<longleftrightarrow> posts r' \<noteq> []" using hm tr by auto
  have "\<exists>user. findById s viewer = Some user
        \<and> totalPosts r = int (length (candidates s viewer (populate_refs s (following user)) L))"
    using u tr len by auto
  with hm dis ne show "(hasMore P r \<longleftrightarrow> P * L < totalPosts r)
   \<and> (\<exists>user. findById s viewer = Some user
        \<and> totalPosts r
            = int (length (candidates s viewer (populate_refs s (following user)) L)))
   \<and> set (map (post_id \<circ> item_doc) (posts r)) \<inter> set (map (post_id \<circ> item_doc) (posts r')) = {}
   \<and> (hasMore P r \<longleftrightarrow> posts r' \<noteq> [])" by blast
qed

lemma demo_candidates_1:
  "candidates demo_db 5 [2] 1
     = [Following (demo_post 11 2 [5] 0 True 2000), Following (demo_post 10 2 [] 0 True 1000)]"
  by (simp add: candidates_def followingPosts_def followingPostsCount_1 find_limit_def
      sort_desc_def recommendedPosts_def populate_post_def populate_refs_def findById_def
      demo_db_def demo_post_def Let_def)

lemma demo_allPosts_1_length: "length (allPosts demo_db 5 [2] 1) = 2"
  by (simp add: allPosts_def demo_candidates_1)

lemma totalPagesOf_2_1: "totalPagesOf 2 1 = 2"
  using totalPagesOf_exact[of 2 1] by simp

lemma demo_small_page:
  "P \<noteq> 0 \<Longrightarrow> getPersonalizedFeed demo_db 5 (Some P) (Some 1) =
     Inr \<lparr>posts = js_slice (allPosts demo_db 5 [2] 1) (P - 1) P,
          currentPage = P, totalPages = 2, totalPosts = 2, feedType = ''personalized''\<rparr>"
  by (simp add: getPersonalizedFeed_found[OF demo_findById] demo_following js_or_def
      demo_allPosts_1_length totalPagesOf_2_1)

lemma demo_small_page_length:
  "length (js_slice (allPosts demo_db 5 [2] 1) 0 1) = 1"
  "length (js_slice (allPosts demo_db 5 [2] 1) 1 2) = 1"
  by (simp_all add: js_slice_def demo_allPosts_1_length Let_def)

lemma demo_db_size: "length (Posts demo_db) < 2 ^ 53"
  by (simp add: demo_db_def)

theorem personalized_pagination_witness:
  "distinct (map post_id (Posts demo_db)) \<and> length (Posts demo_db) < 2 ^ 53
   \<and> (1::int) \<le> 1
   \<and> getPersonalizedFeed demo_db 5 (Some 1) (Some 1) =
       Inr \<lparr>posts = js_slice (allPosts demo_db 5 [2] 1) 0 1,
            currentPage = 1, totalPages = 2, totalPosts = 2, feedType = ''personalized''\<rparr>
   \<and> getPersonalizedFeed demo_db 5 (Some (1 + 1)) (Some 1) =
       Inr \<lparr>posts = js_slice (allPosts demo_db 5 [2] 1) 1 2,
            currentPage = 2, totalPages = 2, totalPosts = 2, feedType = ''personalized''\<rparr>
   \<and> hasMore 1 \<lparr>posts = js_slice (allPosts demo_db 5 [2] 1) 0 1,
            currentPage = 1, totalPages = 2, totalPosts = 2, feedType = ''personalized''\<rparr>
   \<and> js_slice (allPosts demo_db 5 [2] 1) 1 2 \<noteq> []
   \<and> set (map (post_id \<circ> item_doc) (js_slice (allPosts demo_db 5 [2] 1) 0 1))
        \<inter> set (map (post_id \<circ> item_doc) (js_slice (allPosts demo_db 5 [2] 1) 1 2)) = {}"
proof -
  have p1: "getPersonalizedFeed demo_db 5 (Some 1) (Some 1) =
       Inr \<lparr>posts = js_slice (allPosts demo_db 5 [2] 1) 0 1,
            currentPage = 1, totalPages = 2, totalPosts = 2, feedType = ''personalized''\<rparr>"
    using demo_small_page[of 1] by simp
  have p2: "getPersonalizedFeed demo_db 5 (Some (1 + 1)) (Some 1) =
       Inr \<lparr>posts = js_slice (allPosts demo_db 5 [2] 1) 1 2,
            currentPage = 2, totalPages = 2, totalPosts = 2, feedType = ''personalized''\<rparr>"
    using demo_small_page[of 2] by simp
  let ?r1 = "\<lparr>posts = js_slice (allPosts demo_db 5 [2] 1) 0 1,
            currentPage = 1, totalPages = 2, totalPosts = 2, feedType = ''personalized''\<rparr>"
  let ?r2 = "\<lparr>posts = js_slice (allPosts demo_db 5 [2] 1) 1 2,
            currentPage = 2, totalPages = 2, totalPosts = 2, feedType = ''personalized''\<rparr>"
  have one: "(1::int) \<le> 1" by simp
  from personalized_pagination[of demo_db 1 1 5 ?r1 ?r2]
    demo_ids_distinct demo_db_size one p1 p2
  have c: "(hasMore 1 ?r1 \<longleftrightarrow> 1 * 1 < totalPosts ?r1)
     \<and> set (map (post_id \<circ> item_doc) (posts ?r1)) \<inter> set (map (post_id \<circ> item_doc) (posts ?r2)) = {}
     \<and> (hasMore 1 ?r1 \<longleftrightarrow> posts ?r2 \<noteq> [])"
    by blast
  then have h: "hasMore 1 ?r1" by simp
  with c have n: "js_slice (allPosts demo_db 5 [2] 1) 1 2 \<noteq> []" by simp
  from c have d: "set (map (post_id \<circ> item_doc) (js_slice (allPosts demo_db 5 [2] 1) 0 1))
        \<inter> set (map (post_id \<circ> item_doc) (js_slice (allPosts demo_db 5 [2] 1) 1 2)) = {}"
    by simp
  from demo_ids_distinct demo_db_size one p1 p2 h n d show ?thesis by blast
qed

text \<open>
  C10 fails at page size 1. There \<open>Math.floor(1 * 0.7)\<close> is 0 and the followed-author
  query is issued with \<open>limit(0)\<close>, which sets no limit: both public posts of the followed
  author become candidates, page 2 holds one post and two pages are reported.
\<close>

theorem personalized_page_size_one:
  "followingPostsCount 1 = 0
   \<and> length (candidates demo_db 5 [2] 1) = 2
   \<and> getPersonalizedFeed demo_db 5 (Some 2) (Some 1) =
       Inr \<lparr>posts = js_slice (allPosts demo_db 5 [2] 1) 1 2,
            currentPage = 2, totalPages = 2, totalPosts = 2, feedType = ''personalized''\<rparr>
   \<and> length (js_slice (allPosts demo_db 5 [2] 1) 1 2) = 1"
  using demo_small_page[of 2]
  by (simp add: followingPostsCount_1 demo_candidates_1 demo_small_page_length)

text \<open>
  C2 fails at page size 1. The slot split is 0 followed-author items and 1 recommended
  item, and the example store holds two eligible recommended posts (12 and 14); the
  candidates are nevertheless the two followed-author posts and no recommended one.
\<close>

theorem mix_ratio_page_size_one:
  "followingPostsCount 1 = 0 \<and> 1 - followingPostsCount 1 = 1
   \<and> length (filter (\<lambda>p. author p \<notin> set [5, 2] \<and> isPublic p) (Posts demo_db)) = 2
   \<and> length (filter is_following_item (candidates demo_db 5 [2] 1)) = 2
   \<and> length (filter (\<lambda>x. \<not> is_following_item x) (candidates demo_db 5 [2] 1)) = 0"
proof -
  have "length (filter (\<lambda>p. author p \<notin> set [5, 2] \<and> isPublic p) (Posts demo_db)) = 2"
    by (simp add: demo_db_def demo_post_def)
  then show ?thesis by (simp add: followingPostsCount_1 demo_candidates_1)
qed

subsection \<open>Slot counts and page bounds for page sizes of at least 2\<close>

text \<open>
  The slot count is the floor of a double product: for a page size of 90 the product
  \<open>90 * 0.7\<close> rounds to a double below 63.
\<close>

lemma followingPostsCount_90: "followingPostsCount 90 = 62"
proof -
  have "round_double (90 * d0_7) = 8866461766385663 * 2 powi (- 47)"
    using round_double_cert[of 8866461766385663 "- 47" "90 * d0_7"] by (simp add: d0_7_value)
  then show ?thesis by (simp add: followingPostsCount_def dmul_def floor_eq_iff)
qed

lemma d0_7_bounds: "1 / 2 \<le> d0_7" "d0_7 \<le> 7 / 10"
  by (simp_all add: d0_7_value)

lemma followingPostsCount_bounds:
  assumes "2 \<le> L"
  shows "1 \<le> followingPostsCount L" and "followingPostsCount L < L"
proof -
  have Lr: "(2::rat) \<le> of_int L"
  proof -
    have "(of_int 2 :: rat) \<le> of_int L" using assms by (simp only: of_int_le_iff)
    then show ?thesis by simp
  qed
  let ?x = "of_int L * d0_7"
  have "2 * (1 / 2) \<le> ?x" using Lr d0_7_bounds(1) by (intro mult_mono) simp_all
  then have x1: "of_int 1 \<le> ?x" by simp
  then have "of_int 1 \<le> round_double ?x" by (rule round_double_ge_int) simp
  then show "1 \<le> followingPostsCount L"
    by (simp add: followingPostsCount_def dmul_def le_floor_iff)
  have x0: "0 < ?x" using x1 by simp
  have "?x \<le> of_int L * (7 / 10)" using Lr d0_7_bounds(2) by (intro mult_left_mono) simp_all
  then have xu: "?x \<le> of_int L * 7 / 10" by simp
  have "round_double ?x \<le> ?x + ?x / 2 ^ 53" using x0 by (rule round_double_upper)
  also have "\<dots> \<le> of_int L * 7 / 10 + (of_int L * 7 / 10) / 2 ^ 53"
    using xu by (intro add_mono divide_right_mono) simp_all
  also have "\<dots> < of_int L" using Lr by simp
  finally show "followingPostsCount L < L"
    by (simp add: followingPostsCount_def dmul_def floor_less_iff)
qed

lemma length_followingPosts_le:
  assumes "2 \<le> L"
  shows "int (length (followingPosts s followingIds L)) \<le> followingPostsCount L"
  using followingPostsCount_bounds(1)[OF assms]
  by (simp add: followingPosts_def find_limit_def)

lemma length_postsLikedByFollowing_le:
  "length (postsLikedByFollowing s viewer followingIds excluded rc) \<le> nat rc"
  by (simp add: postsLikedByFollowing_def)

lemma length_popularPosts_le:
  "length (popularPosts s viewer followingIds excluded rc) \<le> nat rc"
  by (simp add: popularPosts_def)

lemma length_recommendedPosts_le:
  "int (length (recommendedPosts s viewer followingIds fps rc)) \<le> max 0 rc"
proof (cases "0 < rc")
  case False
  then show ?thesis by (simp add: recommendedPosts_def)
next
  case True
  let ?liked = "postsLikedByFollowing s viewer followingIds (map post_id fps) rc"
  let ?pop = "popularPosts s viewer followingIds
                (map post_id fps @ map (post_id \<circ> item_doc) ?liked) (rc - int (length ?liked))"
  have l: "length ?liked \<le> nat rc" by (rule length_postsLikedByFollowing_le)
  have p: "length ?pop \<le> nat (rc - int (length ?liked))" by (rule length_popularPosts_le)
  have "recommendedPosts s viewer followingIds fps rc
          = (if int (length ?liked) < rc then ?liked @ ?pop else ?liked)"
    using True by (simp add: recommendedPosts_def Let_def)
  then show ?thesis using l p True by (auto split: if_splits)
qed

lemma candidates_length_le_limit:
  assumes "2 \<le> L"
  shows "int (length (candidates s viewer followingIds L)) \<le> L"
proof -
  let ?fps = "followingPosts s followingIds L"
  have a: "int (length ?fps) \<le> followingPostsCount L" using assms by (rule length_followingPosts_le)
  have b: "followingPostsCount L < L" using assms by (rule followingPostsCount_bounds(2))
  have "int (length (recommendedPosts s viewer followingIds ?fps (L - int (length ?fps))))
          \<le> max 0 (L - int (length ?fps))" by (rule length_recommendedPosts_le)
  with a b show ?thesis by (simp add: candidates_def Let_def)
qed

lemma totalPagesOf_le_one:
  assumes "0 \<le> n" and "n \<le> L" and "0 < L"
  shows "totalPagesOf n L \<le> 1"
proof -
  have Lr: "(0::rat) < of_int L" using assms(3) by simp
  have "(of_int n :: rat) \<le> of_int L" using assms(2) by (simp only: of_int_le_iff)
  then have "(of_int n :: rat) / of_int L \<le> of_int 1" using Lr by (simp add: pos_divide_le_eq)
  then have "round_double (of_int n / of_int L) \<le> of_int 1" by (rule round_double_le_int) simp
  then show ?thesis by (simp add: totalPagesOf_def ddiv_def ceiling_le_iff)
qed

text \<open>
  For every page size of at least 2 the candidate set holds at most \<open>L\<close> items, every
  page after the first is empty and at most one page is reported.
\<close>

lemma later_pages_empty:
  assumes "2 \<le> L" and "2 \<le> P" and "getPersonalizedFeed s viewer (Some P) (Some L) = Inr r"
  shows "posts r = []" and "totalPages r \<le> 1" and "totalPosts r \<le> L"
proof -
  have jP: "js_or (Some P) 1 = P" "js_or (Some L) 10 = L"
    using assms(1,2) by (simp_all add: js_or_Some)
  from assms(3) obtain user :: user_doc where
    pr: "posts r = js_slice (allPosts s viewer (populate_refs s (following user)) L)
                     ((P - 1) * L) ((P - 1) * L + L)"
    and tr: "totalPosts r = int (length (allPosts s viewer (populate_refs s (following user)) L))"
    and tp: "totalPages r = totalPagesOf (totalPosts r) L"
    by (rule getPersonalizedFeed_Inr) (simp add: jP)
  have len: "totalPosts r \<le> L"
    unfolding tr allPosts_def using candidates_length_le_limit[OF assms(1)] by simp
  show "totalPosts r \<le> L" by (rule len)
  have "1 * L \<le> (P - 1) * L" using assms(1,2) by (intro mult_right_mono) simp_all
  then have skip: "L \<le> (P - 1) * L" by simp
  then have "int (length (allPosts s viewer (populate_refs s (following user)) L)) \<le> (P - 1) * L"
    using len tr by linarith
  moreover have "0 \<le> (P - 1) * L" "(P - 1) * L < (P - 1) * L + L" using skip assms(1) by simp_all
  ultimately show "posts r = []" unfolding pr by (simp add: js_slice_empty_iff)
  show "totalPages r \<le> 1" unfolding tp using len assms(1)
    by (intro totalPagesOf_le_one) (simp_all add: tr)
qed

lemma length_filter_mem_le:
  assumes "distinct (map f xs)"
  shows "length (filter (\<lambda>x. f x \<in> set ys) xs) \<le> length ys"
proof -
  let ?zs = "map f (filter (\<lambda>x. f x \<in> set ys) xs)"
  have d: "distinct ?zs" using assms by (rule distinct_map_filter)
  have "length (filter (\<lambda>x. f x \<in> set ys) xs) = length ?zs" by simp
  also have "\<dots> = card (set ?zs)" using d by (simp only: distinct_card)
  also have "\<dots> \<le> card (set ys)" by (intro card_mono) auto
  also have "\<dots> \<le> length ys" by (rule card_length)
  finally show ?thesis .
qed

lemma length_filter_mono:
  assumes "\<And>x. x \<in> set xs \<Longrightarrow> P x \<Longrightarrow> Q x"
  shows "length (filter P xs) \<le> length (filter Q xs)"
proof -
  have "filter P xs = filter P (filter Q xs)"
    using assms by (auto simp: filter_filter intro!: filter_cong)
  then show ?thesis by (metis length_filter_le)
qed

lemma length_filter_split:
  "length (filter E xs)
     = length (filter (\<lambda>p. Q p \<and> E p) xs) + length (filter (\<lambda>p. \<not> Q p \<and> E p) xs)"
  by (induction xs) auto

lemma followingPosts_author:
  assumes "distinct (map post_id (Posts s))" and "p \<in> set (Posts s)"
    and "post_id p \<in> post_id ` set (followingPosts s followingIds L)"
  shows "author p \<in> set followingIds"
proof -
  from assms(3) obtain x where "x \<in> set (followingPosts s followingIds L)" "post_id p = post_id x"
    by auto
  then obtain q where q: "q \<in> set (Posts s)" "author q \<in> set followingIds" "post_id q = post_id p"
    by (auto dest!: followingPosts_mem)
  have "inj_on post_id (set (Posts s))" using assms(1) by (simp add: distinct_map)
  then have "q = p" using q(1,3) assms(2) by (auto dest: inj_onD)
  with q(2) show ?thesis by simp
qed

lemma recommendedPosts_not_following:
  "x \<in> set (recommendedPosts s viewer followingIds fps rc) \<Longrightarrow> \<not> is_following_item x"
  unfolding recommendedPosts_def Let_def
  by (auto split: if_splits dest!: postsLikedByFollowing_mem popularPosts_mem)

lemma length_followingPosts_exact:
  assumes "2 \<le> L"
    and "nat (followingPostsCount L)
           \<le> length (filter (\<lambda>p. author p \<in> set followingIds \<and> isPublic p) (Posts s))"
  shows "length (followingPosts s followingIds L) = nat (followingPostsCount L)"
  using followingPostsCount_bounds(1)[OF assms(1)] assms(2)
  by (simp add: followingPosts_def find_limit_def)

lemma length_recommendedPosts_exact:
  assumes d: "distinct (map post_id (Posts s))"
    and fps: "fps = followingPosts s followingIds L"
    and e: "nat rc \<le> length (filter (\<lambda>p. author p \<notin> set (viewer # followingIds) \<and> isPublic p) (Posts s))"
  shows "length (recommendedPosts s viewer followingIds fps rc) = nat rc"
proof (cases "0 < rc")
  case False
  then show ?thesis by (simp add: recommendedPosts_def)
next
  case True
  let ?E = "\<lambda>p. author p \<notin> set (viewer # followingIds) \<and> isPublic p"
  let ?liked = "postsLikedByFollowing s viewer followingIds (map post_id fps) rc"
  let ?X = "map post_id fps @ map (post_id \<circ> item_doc) ?liked"
  let ?pop = "popularPosts s viewer followingIds ?X (rc - int (length ?liked))"
  have l: "length ?liked \<le> nat rc" by (rule length_postsLikedByFollowing_le)
  have r: "recommendedPosts s viewer followingIds fps rc
          = (if int (length ?liked) < rc then ?liked @ ?pop else ?liked)"
    using True by (simp add: recommendedPosts_def Let_def)
  show ?thesis
  proof (cases "int (length ?liked) < rc")
    case False
    then show ?thesis using l r by simp
  next
    case lt: True
    have split: "length (filter ?E (Posts s))
        = length (filter (\<lambda>p. post_id p \<notin> set ?X \<and> ?E p) (Posts s))
          + length (filter (\<lambda>p. \<not> post_id p \<notin> set ?X \<and> ?E p) (Posts s))"
      by (rule length_filter_split)
    have "length (filter (\<lambda>p. \<not> post_id p \<notin> set ?X \<and> ?E p) (Posts s))
        \<le> length (filter (\<lambda>p. post_id p \<in> set (map (post_id \<circ> item_doc) ?liked)) (Posts s))"
    proof (rule length_filter_mono)
      fix p assume p: "p \<in> set (Posts s)" and a: "\<not> post_id p \<notin> set ?X \<and> ?E p"
      show "post_id p \<in> set (map (post_id \<circ> item_doc) ?liked)"
      proof (rule ccontr)
        assume "post_id p \<notin> set (map (post_id \<circ> item_doc) ?liked)"
        with a have "post_id p \<in> post_id ` set (followingPosts s followingIds L)"
          by (auto simp: fps)
        from followingPosts_author[OF d p this] a show False by simp
      qed
    qed
    also have "\<dots> \<le> length (map (post_id \<circ> item_doc) ?liked)"
      using d by (rule length_filter_mem_le)
    finally have "length (filter (\<lambda>p. \<not> post_id p \<notin> set ?X \<and> ?E p) (Posts s)) \<le> length ?liked"
      by simp
    with split e have avail: "nat rc - length ?liked
        \<le> length (filter (\<lambda>p. post_id p \<notin> set ?X \<and> ?E p) (Posts s))" by linarith
    have "length ?pop = min (length (filter (\<lambda>p. post_id p \<notin> set ?X \<and> ?E p) (Posts s)))
                            (nat (rc - int (length ?liked)))"
      by (simp add: popularPosts_def)
    moreover have "nat (rc - int (length ?liked)) = nat rc - length ?liked" using lt by simp
    ultimately have "length ?pop = nat rc - length ?liked" using avail by simp
    then show ?thesis using lt l r by simp
  qed
qed

text \<open>
  For every page size of at least 2: when the store holds at least \<open>graphSlots\<close> public
  posts of followed authors and at least \<open>L - graphSlots\<close> public posts of other authors
  than the viewer and the followed ones, the candidates are exactly \<open>graphSlots\<close>
  followed-author items and \<open>L - graphSlots\<close> recommended items.
\<close>

lemma mix_ratio_from_two:
  assumes "2 \<le> L" and "distinct (map post_id (Posts s))"
    and "nat (followingPostsCount L)
           \<le> length (filter (\<lambda>p. author p \<in> set followingIds \<and> isPublic p) (Posts s))"
    and "nat (L - followingPostsCount L)
           \<le> length (filter (\<lambda>p. author p \<notin> set (viewer # followingIds) \<and> isPublic p) (Posts s))"
  shows "length (filter is_following_item (candidates s viewer followingIds L))
           = nat (followingPostsCount L)"
    and "length (filter (\<lambda>x. \<not> is_following_item x) (candidates s viewer followingIds L))
           = nat (L - followingPostsCount L)"
proof -
  let ?fps = "followingPosts s followingIds L"
  let ?rec = "recommendedPosts s viewer followingIds ?fps (L - int (length ?fps))"
  have c: "candidates s viewer followingIds L = map Following ?fps @ ?rec"
    by (simp add: candidates_def Let_def)
  have f: "length ?fps = nat (followingPostsCount L)"
    using assms(1,3) by (rule length_followingPosts_exact)
  have pos: "1 \<le> followingPostsCount L" using assms(1) by (rule followingPostsCount_bounds(1))
  have rc: "L - int (length ?fps) = L - followingPostsCount L" using f pos by simp
  have recl: "length ?rec = nat (L - followingPostsCount L)"
    unfolding rc using assms(2) refl assms(4) by (rule length_recommendedPosts_exact)
  have nf: "filter is_following_item ?rec = []"
    by (auto simp: filter_empty_conv dest: recommendedPosts_not_following)
  have ff: "filter is_following_item (map Following ?fps) = map Following ?fps"
    by (induction ?fps) auto
  have "filter is_following_item (candidates s viewer followingIds L) = map Following ?fps"
    by (simp only: c filter_append nf ff append_Nil2)
  then show "length (filter is_following_item (candidates s viewer followingIds L))
           = nat (followingPostsCount L)"
    by (simp only: length_map f)
  have nn: "filter (\<lambda>x. \<not> is_following_item x) ?rec = ?rec"
    by (auto simp: filter_id_conv dest: recommendedPosts_not_following)
  have fn: "filter (\<lambda>x. \<not> is_following_item x) (map Following ?fps) = []"
    by (induction ?fps) auto
  have "filter (\<lambda>x. \<not> is_following_item x) (candidates s viewer followingIds L) = ?rec"
    by (simp only: c filter_append nn fn append_Nil)
  then show "length (filter (\<lambda>x. \<not> is_following_item x) (candidates s viewer followingIds L))
           = nat (L - followingPostsCount L)"
    by (simp only: recl)
qed


subsection \<open>Pagination parameters\<close>

lemma js_or_zero: "js_or (Some 0) d = d" "js_or None d = d"
  by (simp_all add: js_or_def)

lemma js_or_default: "js_or (Some 1) 1 = 1" "js_or (Some 10) 10 = 10"
  by (simp_all add: js_or_def)

text \<open>
  C5 as stated fails: a request for page 0 of the personalized feed is not rejected, it is
  answered with page 1.
\<close>

theorem page_zero_is_served:
  "(0::int) < 1 \<and> getPersonalizedFeed demo_db 5 (Some 0) (Some 10) = Inr demo_page"
  using demo_page_1
  by (simp add: getPersonalizedFeed_def js_or_def)

text \<open>
  C5, amended. No route rejects a page or a page size that parses to 0 or to NaN (absent
  or not numeric): each of the three routes replaces such a page by 1 and such a page
  size by 10 and answers exactly as it answers the request with the default value. So
  page 0 and page size 0 are served as page 1 of size 10, by the personalized feed for an
  existing viewer and by the trending feed.
\<close>

theorem zero_pagination_is_defaulted:
  "getPersonalizedFeed s viewer (Some 0) limitQ = getPersonalizedFeed s viewer (Some 1) limitQ
   \<and> getPersonalizedFeed s viewer None limitQ = getPersonalizedFeed s viewer (Some 1) limitQ
   \<and> getPersonalizedFeed s viewer pageQ (Some 0) = getPersonalizedFeed s viewer pageQ (Some 10)
   \<and> getPersonalizedFeed s viewer pageQ None = getPersonalizedFeed s viewer pageQ (Some 10)
   \<and> getTrendingFeed s now (Some 0) limitQ = getTrendingFeed s now (Some 1) limitQ
   \<and> getTrendingFeed s now None limitQ = getTrendingFeed s now (Some 1) limitQ
   \<and> getTrendingFeed s now pageQ (Some 0) = getTrendingFeed s now pageQ (Some 10)
   \<and> getTrendingFeed s now pageQ None = getTrendingFeed s now pageQ (Some 10)
   \<and> getDiscoverFeed s viewer (Some 0) limitQ = getDiscoverFeed s viewer (Some 1) limitQ
   \<and> getDiscoverFeed s viewer None limitQ = getDiscoverFeed s viewer (Some 1) limitQ
   \<and> getDiscoverFeed s viewer pageQ (Some 0) = getDiscoverFeed s viewer pageQ (Some 10)
   \<and> getDiscoverFeed s viewer pageQ None = getDiscoverFeed s viewer pageQ (Some 10)
   \<and> (findById s viewer = Some user \<longrightarrow>
        \<not> isl (getPersonalizedFeed s viewer (Some 0) (Some 0))
        \<and> currentPage (projr (getPersonalizedFeed s viewer (Some 0) (Some 0))) = 1)
   \<and> \<not> isl (getTrendingFeed s now (Some 0) (Some 0))
   \<and> currentPage (projr (getTrendingFeed s now (Some 0) (Some 0))) = 1"
proof (intro conjI impI)
  assume u: "findById s viewer = Some user"
  show "\<not> isl (getPersonalizedFeed s viewer (Some 0) (Some 0))"
    by (simp add: getPersonalizedFeed_found[OF u])
  show "currentPage (projr (getPersonalizedFeed s viewer (Some 0) (Some 0))) = 1"
    by (simp add: getPersonalizedFeed_found[OF u] js_or_zero)
next
  show "\<not> isl (getTrendingFeed s now (Some 0) (Some 0))"
    by (simp add: getTrendingFeed_isl js_or_zero aggregate_accepts_def)
  show "currentPage (projr (getTrendingFeed s now (Some 0) (Some 0))) = 1"
    by (simp add: getTrendingFeed_def trendingPosts_def js_or_zero aggregate_accepts_def Let_def)
qed (simp_all add: getPersonalizedFeed_def getTrendingFeed_def getDiscoverFeed_def
      js_or_zero js_or_default)

theorem zero_pagination_is_defaulted_witness:
  "findById demo_db 5 = Some \<lparr>user_id = 5, following = [2], followers = []\<rparr>
   \<and> \<not> isl (getPersonalizedFeed demo_db 5 (Some 0) (Some 0))
   \<and> currentPage (projr (getPersonalizedFeed demo_db 5 (Some 0) (Some 0))) = 1
   \<and> getPersonalizedFeed demo_db 5 (Some 0) (Some 0) = Inr demo_page"
proof -
  from zero_pagination_is_defaulted[of demo_db 5 "Some 0" "Some 0" 5000
      "\<lparr>user_id = 5, following = [2], followers = []\<rparr>"] demo_findById
  have a: "\<not> isl (getPersonalizedFeed demo_db 5 (Some 0) (Some 0))"
    and b: "currentPage (projr (getPersonalizedFeed demo_db 5 (Some 0) (Some 0))) = 1"
    and c: "getPersonalizedFeed demo_db 5 (Some 0) (Some 0)
              = getPersonalizedFeed demo_db 5 (Some 1) (Some 0)"
    by blast+
  from zero_pagination_is_defaulted[of demo_db 5 "Some 0" "Some 1" 5000
      "\<lparr>user_id = 5, following = [2], followers = []\<rparr>"]
  have d: "getPersonalizedFeed demo_db 5 (Some 1) (Some 0)
              = getPersonalizedFeed demo_db 5 (Some 1) (Some 10)"
    by blast
  from a b c d demo_findById demo_page_1 show ?thesis by simp
qed


subsection \<open>Independence of the scan order\<close>























subsection \<open>Dependence on the call time\<close>

























end
